theory Spec2Isabelle
  imports Main "HOL-Library.Multiset" "HOL-Library.Char_ord" "HOL-Library.List_Lexorder"
begin

section \<open>Shared data model\<close>

text \<open>
  Tokens are Python \<open>str\<close> values (truncated hex digests); a signature is the tuple
  of tokens \<open>tuple(sorted(...))\<close>. Strings are ordered by code point, lexicographically,
  which is the order \<open>Char_ord\<close> and \<open>List_Lexorder\<close> give \<open>char list\<close>; tuples of
  strings are ordered lexicographically again.
\<close>

type_synonym token = string
type_synonym signature = "token list"

datatype error = ValueError | IndexError | ZeroDivisionError

text \<open>
  A Python \<open>dict\<close> keeps its keys in insertion order, and \<open>get_result\<close> of the
  combiner exposes that order, so a dict is an association list. Assigning to a key that
  is present keeps its place, assigning to a new key appends, \<open>pop\<close> removes the key.
\<close>

type_synonym ('k, 'v) pydict = "('k \<times> 'v) list"

definition keys :: "('k, 'v) pydict \<Rightarrow> 'k list" where
  "keys d = map fst d"

definition dict_contains :: "('k, 'v) pydict \<Rightarrow> 'k \<Rightarrow> bool" where
  "dict_contains d k = (k \<in> set (keys d))"

definition dict_set :: "('k, 'v) pydict \<Rightarrow> 'k \<Rightarrow> 'v \<Rightarrow> ('k, 'v) pydict" where
  "dict_set d k v =
     (if dict_contains d k then map (\<lambda>(k', v'). if k' = k then (k', v) else (k', v')) d
      else d @ [(k, v)])"

definition dict_add :: "('k, int) pydict \<Rightarrow> 'k \<Rightarrow> int \<Rightarrow> ('k, int) pydict" where
  \<comment> \<open>\<open>d[k] += n\<close> on a key that is present\<close>
  "dict_add d k n = map (\<lambda>(k', v'). if k' = k then (k', v' + n) else (k', v')) d"

definition dict_pop :: "('k, 'v) pydict \<Rightarrow> 'k \<Rightarrow> ('k, 'v) pydict" where
  "dict_pop d k = filter (\<lambda>(k', v'). k' \<noteq> k) d"

definition dict_update :: "('k, 'v) pydict \<Rightarrow> ('k, 'v) pydict \<Rightarrow> ('k, 'v) pydict" where
  \<comment> \<open>\<open>d.update(other)\<close>\<close>
  "dict_update d other = fold (\<lambda>(k, v) acc. dict_set acc k v) other d"

text \<open>Python slices \<open>xs[:j]\<close> and \<open>xs[i:j]\<close> for \<open>i \<ge> 0\<close>; a negative stop counts from the end.\<close>

definition py_stop :: "'a list \<Rightarrow> int \<Rightarrow> nat" where
  "py_stop xs j = (if j < 0 then nat (int (length xs) + j) else nat j)"

definition py_slice_to :: "'a list \<Rightarrow> int \<Rightarrow> 'a list" where
  "py_slice_to xs j = take (py_stop xs j) xs"

definition py_slice :: "'a list \<Rightarrow> nat \<Rightarrow> int \<Rightarrow> 'a list" where
  "py_slice xs i j = drop i (take (py_stop xs j) xs)"

section \<open>Window signature tracker (\<open>l_identifying.py\<close>)\<close>

record tracker =
  query_dict :: "(signature, int) pydict"
  current_window :: "token list"
  query_count :: int
  length_l :: int
  prune_threshold :: int
  prune_interval :: int

definition LIdentifyingAttack :: "int \<Rightarrow> int \<Rightarrow> int \<Rightarrow> tracker" where
  "LIdentifyingAttack l thr itv =
     \<lparr>query_dict = [], current_window = [], query_count = 0,
      length_l = l, prune_threshold = thr, prune_interval = itv\<rparr>"

definition window_signature :: "int \<Rightarrow> token list \<Rightarrow> signature" where
  \<comment> \<open>\<open>tuple(sorted(self._current_window[:self._l]))\<close>\<close>
  "window_signature l w = sort (py_slice_to w l)"

definition count_signature :: "(signature, int) pydict \<Rightarrow> signature \<Rightarrow> (signature, int) pydict" where
  \<comment> \<open>lines 71 to 76: increment or insert, then add 0 when the signature repeats a token\<close>
  "count_signature d subseq =
     (let d1 = (if dict_contains d subseq then dict_add d subseq 1 else dict_set d subseq 1)
      in if card (set subseq) < length subseq then dict_add d1 subseq 0 else d1)"

definition prune :: "tracker \<Rightarrow> tracker" where
  "prune t = t\<lparr>query_dict := filter (\<lambda>(seq, count). count \<ge> prune_threshold t) (query_dict t)\<rparr>"

text \<open>
  \<open>process\<close> returns the state the object is left in together with the exception raised,
  if any. The \<open>isinstance\<close> check of line 63 is discharged by the type \<open>token\<close>. The only
  other exception is the \<open>ZeroDivisionError\<close> of \<open>count % 0\<close>, raised after the counter,
  the window and the table have been updated.
\<close>

definition process :: "tracker \<Rightarrow> token \<Rightarrow> error option \<times> tracker" where
  "process t query =
     (let t1 = t\<lparr>query_count := query_count t + 1,
                 current_window := current_window t @ [query]\<rparr>;
          t2 = (if int (length (current_window t1)) \<ge> length_l t1
                then t1\<lparr>query_dict :=
                          count_signature (query_dict t1)
                            (window_signature (length_l t1) (current_window t1))\<rparr>
                else t1);
          t3 = (if int (length (current_window t2)) > length_l t2
                then t2\<lparr>current_window := tl (current_window t2)\<rparr>
                else t2)
      in if prune_interval t3 = 0 then (Some ZeroDivisionError, t3)
         else if query_count t3 mod prune_interval t3 = 0 then (None, prune t3)
         else (None, t3))"

definition get_result :: "tracker \<Rightarrow> (signature, int) pydict" where
  "get_result t = query_dict t"

definition reset :: "tracker \<Rightarrow> tracker" where
  "reset t = t\<lparr>query_dict := [], query_count := 0\<rparr>"

fun process_all :: "tracker \<Rightarrow> token list \<Rightarrow> error option \<times> tracker" where
  \<comment> \<open>the caller's loop \<open>for line in f: attack.process(line)\<close>; an exception ends it\<close>
  "process_all t [] = (None, t)"
| "process_all t (q # qs) =
     (case process t q of
        (Some e, t') \<Rightarrow> (Some e, t')
      | (None, t') \<Rightarrow> process_all t' qs)"

section \<open>Resolution combiner (\<open>range_combining.py\<close>)\<close>

type_synonym sigtable = "(signature, int) pydict"

record combiner =
  combined_results :: "sigtable list"
  lengths_processed :: "int list"

definition RangeCombiningAttack :: combiner where
  "RangeCombiningAttack = \<lparr>combined_results = [], lengths_processed = []\<rparr>"

definition py_index :: "'a list \<Rightarrow> int \<Rightarrow> nat option" where
  \<comment> \<open>the position \<open>xs[i]\<close> reads, a negative \<open>i\<close> counting from the end; \<open>None\<close> is IndexError\<close>
  "py_index xs i =
     (let n = int (length xs); j = (if i < 0 then n + i else i)
      in if 0 \<le> j \<and> j < n then Some (nat j) else None)"

definition py_insert :: "'a list \<Rightarrow> int \<Rightarrow> 'a \<Rightarrow> 'a list" where
  \<comment> \<open>\<open>xs.insert(i, x)\<close>: positions past the end append\<close>
  "py_insert xs i x =
     (let n = nat (if i < 0 then int (length xs) + i else i)
      in take n xs @ x # drop n xs)"

definition pop_slices :: "int \<Rightarrow> int \<Rightarrow> signature \<Rightarrow> sigtable \<Rightarrow> sigtable" where
  \<comment> \<open>\<open>for i in range(n): if subseq[i:i+w] in tbl: tbl.pop(subseq[i:i+w])\<close>\<close>
  "pop_slices w n subseq tbl =
     fold (\<lambda>i t. if dict_contains t (py_slice subseq i (int i + w))
                  then dict_pop t (py_slice subseq i (int i + w)) else t)
          [0..<nat n] tbl"

text \<open>
  The loop of lines 68 to 82 over \<open>enumerate(self._lengths_processed)\<close>. It carries the
  stored tables, the caller's \<open>result_dict\<close> (which the loop mutates) and \<open>smaller_pos\<close>.
  Reading \<open>self._combined_results[pos]\<close> past the end of the list raises IndexError; in the
  first branch the table is read only when \<open>result_dict\<close> has a key. The dict passed in is
  taken to be a different object from every stored table of another length, as it is when
  the caller passes \<open>get_result()\<close> copies.
\<close>

fun scan_lengths ::
  "int \<Rightarrow> int list \<Rightarrow> nat \<Rightarrow> sigtable list \<Rightarrow> sigtable \<Rightarrow> int
     \<Rightarrow> error option \<times> sigtable list \<times> sigtable \<times> int" where
  "scan_lengths ql [] pos cr rd sp = (None, cr, rd, sp)"
| "scan_lengths ql (l # ls) pos cr rd sp =
     (if l < ql then
        (if keys rd = [] then scan_lengths ql ls (Suc pos) cr rd (int pos)
         else if pos < length cr then
           scan_lengths ql ls (Suc pos)
             (cr[pos := fold (pop_slices l (ql - l)) (keys rd) (cr ! pos)]) rd (int pos)
         else (Some IndexError, cr, rd, int pos))
      else if ql < l then
        (if pos < length cr then
           scan_lengths ql ls (Suc pos) cr
             (fold (pop_slices ql (l - ql)) (keys (cr ! pos)) rd) sp
         else (Some IndexError, cr, rd, sp))
      else scan_lengths ql ls (Suc pos) cr rd (int pos))"

text \<open>
  \<open>load_l_identifying_result\<close> returns the exception raised, if any, the combiner's state
  and the caller's dict as the call leaves them.
\<close>

definition load_l_identifying_result ::
  "combiner \<Rightarrow> sigtable \<Rightarrow> int \<Rightarrow> error option \<times> combiner \<times> sigtable" where
  "load_l_identifying_result s result_dict query_length =
     (if combined_results s = [] then
        (None,
         s\<lparr>combined_results := combined_results s @ [result_dict],
           lengths_processed := lengths_processed s @ [query_length]\<rparr>,
         result_dict)
      else
        (case scan_lengths query_length (lengths_processed s) 0 (combined_results s)
                result_dict (- 1) of
           (Some e, cr, rd, smaller_pos) \<Rightarrow> (Some e, s\<lparr>combined_results := cr\<rparr>, rd)
         | (None, cr, rd, smaller_pos) \<Rightarrow>
             (case py_index (lengths_processed s) smaller_pos of
                None \<Rightarrow> (Some IndexError, s\<lparr>combined_results := cr\<rparr>, rd)
              | Some j \<Rightarrow>
                  if lengths_processed s ! j < query_length then
                    (None,
                     s\<lparr>lengths_processed :=
                         py_insert (lengths_processed s) (smaller_pos + 1) query_length,
                       combined_results := py_insert cr (smaller_pos + 1) rd\<rparr>,
                     rd)
                  else if lengths_processed s ! j = query_length then
                    (case py_index cr smaller_pos of
                       None \<Rightarrow> (Some IndexError, s\<lparr>combined_results := cr\<rparr>, rd)
                     | Some k \<Rightarrow>
                         (None, s\<lparr>combined_results := cr[k := dict_update (cr ! k) rd]\<rparr>, rd))
                  else (Some ValueError, s\<lparr>combined_results := cr\<rparr>, rd))))"

definition get_result_combined :: "combiner \<Rightarrow> signature list" where
  \<comment> \<open>\<open>RangeCombiningAttack.get_result\<close>\<close>
  "get_result_combined s =
     fold (\<lambda>re_dict result_list. result_list @ keys re_dict) (combined_results s) []"

fun load_all :: "combiner \<Rightarrow> (sigtable \<times> int) list \<Rightarrow> error option \<times> combiner" where
  \<comment> \<open>a caller's sequence of load calls; an exception ends it\<close>
  "load_all s [] = (None, s)"
| "load_all s ((d, L) # rest) =
     (case load_l_identifying_result s d L of
        (Some e, s', d') \<Rightarrow> (Some e, s')
      | (None, s', d') \<Rightarrow> load_all s' rest)"

section \<open>Leak correlation matcher (\<open>credential_connecting.py\<close>)\<close>

text \<open>
  The matcher's state after \<open>pre_compute\<close>: for every retained leaked group its plaintexts
  and, at the same positions, their hash tokens. Reading the file and hashing are not
  modelled; a state is given by its two lists.
\<close>

record matcher =
  credentials_data :: "string list list"
  hash_credentials_data :: "token list list"

record connection =
  matches_list :: "string list"
  unmatches_list :: "token list"
  other_candidate :: "string list"

text \<open>
  Python does not fix the order in which a \<open>set\<close> is iterated. Each function that
  iterates one takes the order as a parameter: a function from a set to a list of its
  elements, which \<open>iter_ok\<close> requires to enumerate a finite set once each.
\<close>

definition iter_ok :: "('a set \<Rightarrow> 'a list) \<Rightarrow> bool" where
  "iter_ok it = (\<forall>S. finite S \<longrightarrow> set (it S) = S \<and> distinct (it S))"

definition counter_incr :: "('k, int) pydict \<Rightarrow> 'k \<Rightarrow> ('k, int) pydict" where
  \<comment> \<open>\<open>counter[k] += 1\<close> on a \<open>Counter\<close>, where a missing key counts 0\<close>
  "counter_incr c k = (if dict_contains c k then dict_add c k 1 else dict_set c k 1)"

definition Counter :: "'k list \<Rightarrow> ('k, int) pydict" where
  "Counter xs = fold (\<lambda>x c. counter_incr c x) xs []"

definition counter_get :: "('k, int) pydict \<Rightarrow> 'k \<Rightarrow> int" where
  "counter_get c k = (case map_of c k of None \<Rightarrow> 0 | Some v \<Rightarrow> v)"

definition counter_sub :: "('k, int) pydict \<Rightarrow> ('k, int) pydict \<Rightarrow> ('k, int) pydict" where
  \<comment> \<open>\<open>Counter.__sub__\<close>: only positive counts are kept\<close>
  "counter_sub c other =
     filter (\<lambda>(k, v). 0 < v) (map (\<lambda>(k, v). (k, v - counter_get other k)) c)
     @ map (\<lambda>(k, v). (k, 0 - v)) (filter (\<lambda>(k, v). \<not> dict_contains c k \<and> v < 0) other)"

definition elements :: "('k, int) pydict \<Rightarrow> 'k list" where
  "elements c = concat (map (\<lambda>(k, v). replicate (nat v) k) c)"

definition build_index ::
  "(token set \<Rightarrow> token list) \<Rightarrow> token list list \<Rightarrow> token \<Rightarrow> nat set" where
  \<comment> \<open>lines 118 to 121; a \<open>defaultdict(set)\<close> is a function that is empty off its keys\<close>
  "build_index ti B =
     fold (\<lambda>(i, b) index.
             fold (\<lambda>elem index. index(elem := insert i (index elem))) (ti (set b)) index)
          (enumerate 0 B) (\<lambda>elem. {})"

definition tally ::
  "(token set \<Rightarrow> token list) \<Rightarrow> (nat set \<Rightarrow> nat list) \<Rightarrow> (token \<Rightarrow> nat set)
     \<Rightarrow> signature \<Rightarrow> (nat, int) pydict" where
  \<comment> \<open>lines 125 to 128\<close>
  "tally ti ii index a =
     fold (\<lambda>elem counter. fold (\<lambda>idx counter. counter_incr counter idx) (ii (index elem)) counter)
          (ti (set a)) []"

fun find_best :: "(nat, int) pydict \<Rightarrow> (nat \<times> int) option" where
  \<comment> \<open>\<open>max(counter, key=lambda x: counter[x])\<close> with its count: the first maximal key\<close>
  "find_best [] = None"
| "find_best (kv # rest) =
     Some (fold (\<lambda>(k, v) (bk, bv). if bv < v then (k, v) else (bk, bv)) rest kv)"

definition positions :: "(token set \<Rightarrow> token list) \<Rightarrow> signature \<Rightarrow> token list \<Rightarrow> nat list" where
  \<comment> \<open>lines 136 to 140\<close>
  "positions ti a b =
     concat (map (\<lambda>item. map fst (filter (\<lambda>(i, x). x = item) (enumerate 0 b)))
                 (ti (set a \<inter> set b)))"

definition find_best_matches ::
  "(token set \<Rightarrow> token list) \<Rightarrow> (nat set \<Rightarrow> nat list) \<Rightarrow> signature list
     \<Rightarrow> token list list \<Rightarrow> int \<Rightarrow> (nat list \<times> nat list list) list" where
  "find_best_matches ti ii A B min_overlap =
     (let index = build_index ti B
      in fold (\<lambda>a results.
                 case find_best (tally ti ii index a) of
                   None \<Rightarrow> results
                 | Some (best_idx, cnt) \<Rightarrow>
                     if min_overlap \<le> cnt
                     then results @ [([best_idx], [positions ti a (B ! best_idx)])]
                     else results)
              A [])"

definition group_at :: "'a list list \<Rightarrow> nat list \<Rightarrow> nat \<Rightarrow> 'a list option" where
  \<comment> \<open>\<open>data[indices[pos]]\<close>; \<open>None\<close> is IndexError\<close>
  "group_at data indices pos =
     (if pos < length indices \<and> indices ! pos < length data
      then Some (data ! (indices ! pos)) else None)"

fun resolve ::
  "string list option \<Rightarrow> token list option \<Rightarrow> nat list \<Rightarrow> (string list \<times> token list) option"
  where
  \<comment> \<open>lines 104 to 106; \<open>None\<close> is IndexError\<close>
  "resolve gc gh [] = Some ([], [])"
| "resolve gc gh (d # det) =
     (case (gc, gh) of
        (Some creds, Some hashes) \<Rightarrow>
          if d < length creds \<and> d < length hashes
          then map_option (\<lambda>(ms, hs). (creds ! d # ms, hashes ! d # hs)) (resolve gc gh det)
          else None
      | _ \<Rightarrow> None)"

text \<open>
  The loops of \<open>run\<close>. \<open>str(sorted(matches_list))\<close> is one-to-one on lists of strings, so
  \<open>match_test\<close> holds the sorted lists themselves. \<open>q\<close> is \<open>identified_queries[idpos]\<close>,
  or \<open>None\<close> where reading it raises IndexError.
\<close>

fun run_details ::
  "matcher \<Rightarrow> signature option \<Rightarrow> nat list \<Rightarrow> nat \<Rightarrow> nat list list
     \<Rightarrow> connection list \<times> string list set \<Rightarrow> error + connection list \<times> string list set"
  where
  "run_details m q indices pos [] acc = Inr acc"
| "run_details m q indices pos (det # details) (connected_results, match_test) =
     (case resolve (group_at (credentials_data m) indices pos)
                   (group_at (hash_credentials_data m) indices pos) det of
        None \<Rightarrow> Inl IndexError
      | Some (ms, hs) \<Rightarrow>
          if sort ms \<in> match_test
          then run_details m q indices (Suc pos) details (connected_results, match_test)
          else
            (case (q, group_at (credentials_data m) indices pos) of
               (Some a, Some creds) \<Rightarrow>
                 run_details m q indices (Suc pos) details
                   (connected_results @
                      [\<lparr>matches_list = ms,
                        unmatches_list = elements (counter_sub (Counter a) (Counter hs)),
                        other_candidate = elements (counter_sub (Counter creds) (Counter ms))\<rparr>],
                    insert (sort ms) match_test)
             | _ \<Rightarrow> Inl IndexError))"

fun run_matches ::
  "matcher \<Rightarrow> signature list \<Rightarrow> nat \<Rightarrow> (nat list \<times> nat list list) list
     \<Rightarrow> connection list \<times> string list set \<Rightarrow> error + connection list \<times> string list set"
  where
  "run_matches m qs idpos [] acc = Inr acc"
| "run_matches m qs idpos ((indices, details) # rest) acc =
     (if length indices = 0 then run_matches m qs (Suc idpos) rest acc
      else
        (case run_details m (if idpos < length qs then Some (qs ! idpos) else None)
                indices 0 details acc of
           Inl e \<Rightarrow> Inl e
         | Inr acc' \<Rightarrow> run_matches m qs (Suc idpos) rest acc'))"

definition run ::
  "(token set \<Rightarrow> token list) \<Rightarrow> (nat set \<Rightarrow> nat list) \<Rightarrow> matcher \<Rightarrow> signature list \<Rightarrow> int
     \<Rightarrow> error + connection list" where
  "run ti ii m identified_queries min_overlap =
     (case run_matches m identified_queries 0
             (find_best_matches ti ii identified_queries (hash_credentials_data m) min_overlap)
             ([], {}) of
        Inl e \<Rightarrow> Inl e
      | Inr (connected_results, match_test) \<Rightarrow> Inr connected_results)"

section \<open>Auxiliary definitions for the proofs\<close>

text \<open>
  \<open>last_le\<close> is the value of \<open>smaller_pos\<close> after the loop: the last position whose
  length is at most the new one. \<open>comb_inv\<close> is the invariant of every combiner reached
  from a fresh one: one length per table, the lengths in strictly ascending order.
\<close>

fun last_le :: "int \<Rightarrow> int list \<Rightarrow> nat \<Rightarrow> int \<Rightarrow> int" where
  "last_le ql [] pos sp = sp"
| "last_le ql (l # ls) pos sp = last_le ql ls (Suc pos) (if l \<le> ql then int pos else sp)"

definition comb_inv :: "combiner \<Rightarrow> bool" where
  "comb_inv s = (length (combined_results s) = length (lengths_processed s) \<and>
                 sorted_wrt (<) (lengths_processed s))"

text \<open>
  \<open>slices_of\<close> is the set of slices the pruning loops look up; \<open>prune_by\<close> removes them
  from a table. \<open>tables_after\<close> and \<open>rd_after\<close> are the stored tables and the caller's dict
  after the loop of \<open>scan_lengths\<close>, over the list of stored (length, table) pairs;
  \<open>big\<close> is the set of slices that loop removes from the caller's dict.
\<close>

definition slices_of :: "int \<Rightarrow> int \<Rightarrow> signature list \<Rightarrow> signature set" where
  "slices_of w n ks = (\<Union>s \<in> set ks. (\<lambda>i. py_slice s i (int i + w)) ` {..<nat n})"

definition prune_by :: "int \<Rightarrow> int \<Rightarrow> signature list \<Rightarrow> sigtable \<Rightarrow> sigtable" where
  "prune_by w n ks tbl = filter (\<lambda>(k, v). k \<notin> slices_of w n ks) tbl"

fun rd_after :: "int \<Rightarrow> (int \<times> sigtable) list \<Rightarrow> sigtable \<Rightarrow> sigtable" where
  "rd_after ql [] rd = rd"
| "rd_after ql ((l, T) # zs) rd =
     rd_after ql zs (if ql < l then prune_by ql (l - ql) (keys T) rd else rd)"

fun tables_after :: "int \<Rightarrow> (int \<times> sigtable) list \<Rightarrow> sigtable \<Rightarrow> sigtable list" where
  "tables_after ql [] rd = []"
| "tables_after ql ((l, T) # zs) rd =
     (if l < ql then prune_by l (ql - l) (keys rd) T else T)
       # tables_after ql zs (if ql < l then prune_by ql (l - ql) (keys T) rd else rd)"

fun big :: "int \<Rightarrow> (int \<times> sigtable) list \<Rightarrow> signature set" where
  "big ql [] = {}"
| "big ql ((l, T) # zs) = (if ql < l then slices_of ql (l - ql) (keys T) else {}) \<union> big ql zs"

text \<open>\<open>first_occ\<close> lists the elements of a list once each, in order of first occurrence: the
  key order of \<open>Counter(xs)\<close>.\<close>

definition first_occ :: "'a list \<Rightarrow> 'a list" where
  "first_occ xs = rev (remdups (rev xs))"

text \<open>
  \<open>rec_key\<close> is the key \<open>run\<close> deduplicates by. \<open>entry_keys\<close> and \<open>all_keys\<close> list the keys
  of the matches in a result list of \<open>_find_best_matches\<close>; \<open>accepted_keys\<close> are those of
  one candidate, computed by \<open>_find_best_matches\<close> on that candidate alone.
  \<open>matcher_aligned\<close> says that every group has as many plaintexts as hash tokens, as
  \<open>pre_compute\<close> builds them.
\<close>

definition rec_key :: "connection \<Rightarrow> string list" where
  "rec_key r = sort (matches_list r)"

fun entry_keys :: "matcher \<Rightarrow> nat list \<Rightarrow> nat \<Rightarrow> nat list list \<Rightarrow> string list list" where
  "entry_keys m indices pos [] = []"
| "entry_keys m indices pos (det # details) =
     (case resolve (group_at (credentials_data m) indices pos)
                   (group_at (hash_credentials_data m) indices pos) det of
        None \<Rightarrow> []
      | Some (ms, hs) \<Rightarrow> [sort ms]) @ entry_keys m indices (Suc pos) details"

definition all_keys :: "matcher \<Rightarrow> (nat list \<times> nat list list) list \<Rightarrow> string list list" where
  "all_keys m results =
     concat (map (\<lambda>(indices, details).
                    if length indices = 0 then [] else entry_keys m indices 0 details) results)"

definition accepted_keys ::
  "(token set \<Rightarrow> token list) \<Rightarrow> (nat set \<Rightarrow> nat list) \<Rightarrow> matcher \<Rightarrow> signature \<Rightarrow> int
     \<Rightarrow> string list list" where
  "accepted_keys ti ii m a min_overlap =
     all_keys m (find_best_matches ti ii [a] (hash_credentials_data m) min_overlap)"

definition matcher_aligned :: "matcher \<Rightarrow> bool" where
  "matcher_aligned m =
     list_all2 (\<lambda>c h. length c = length h) (credentials_data m) (hash_credentials_data m)"

section \<open>Properties of the tracker\<close>

lemma dict_add_zero [simp]: "dict_add d k 0 = d"
  by (induction d) (auto simp: dict_add_def)

lemma count_signature_eq:
  "count_signature d s = (if dict_contains d s then dict_add d s 1 else dict_set d s 1)"
  by (simp add: count_signature_def Let_def)

lemma window_signature_full:
  "int (length w) = l \<Longrightarrow> window_signature l w = sort w"
  by (auto simp: window_signature_def py_slice_to_def py_stop_def)

lemma window_signature_overfull:
  "int (length w) = l \<Longrightarrow> window_signature l (w @ [q]) = sort w"
  by (auto simp: window_signature_def py_slice_to_def py_stop_def)

lemma sort_perm_eq:
  fixes xs ys :: "'a::linorder list"
  shows "mset xs = mset ys \<Longrightarrow> sort xs = sort ys"
  by (metis mset_sort sorted_sort properties_for_sort)

lemma sort3_rot1: "sort [b, c, a] = sort [a, b, (c::token)]"
  by (rule sort_perm_eq) simp

lemma sort3_rot2: "sort [c, a, b] = sort [a, b, (c::token)]"
  by (rule sort_perm_eq) simp

lemma one_mod_zero_iff: "n \<noteq> 0 \<Longrightarrow> ((1::int) mod n = 0) = (n = 1 \<or> n = - 1)"
  by (auto simp: mod_eq_0_iff_dvd)

lemma abc_stream_result:
  "process_all (LIdentifyingAttack 3 2 100) [a, b, c, a, b, c, a, b, c] =
     (None, \<lparr>query_dict = [(sort [a, b, c], 7)], current_window = [a, b, c],
             query_count = 9, length_l = 3, prune_threshold = 2, prune_interval = 100\<rparr>)"
  by (simp add: LIdentifyingAttack_def process_def Let_def count_signature_eq
        window_signature_def py_slice_to_def py_stop_def prune_def
        dict_contains_def keys_def dict_set_def dict_add_def sort3_rot1 sort3_rot2
      del: sort_key_simps)

lemma process_query_dict_fit:
  assumes "int (length (current_window t)) + 1 = length_l t"
  shows "query_dict (snd (process t q)) =
     (let d = count_signature (query_dict t) (sort (current_window t @ [q]))
      in if prune_interval t \<noteq> 0 \<and> (query_count t + 1) mod prune_interval t = 0
         then filter (\<lambda>(seq, count). prune_threshold t \<le> count) d else d)"
  using assms
  by (simp add: process_def Let_def prune_def window_signature_full)

text \<open>
  Claim C1, as the code has it. The stream \<open>[a,b,c,a,b,c,a,b,c]\<close> fed to a tracker with
  \<open>L = 3\<close>, \<open>prune_threshold = 2\<close>, \<open>prune_interval = 100\<close> raises nothing and leaves one
  entry, the signature \<open>sorted(a,b,c)\<close>; its count is 7, one increment for each token from
  the third on, not 3.
\<close>

theorem tracker_abc_stream:
  "fst (process_all (LIdentifyingAttack 3 2 100) [a, b, c, a, b, c, a, b, c]) = None \<and>
   get_result (snd (process_all (LIdentifyingAttack 3 2 100) [a, b, c, a, b, c, a, b, c]))
     = [(sort [a, b, c], 7)]"
  unfolding abc_stream_result get_result_def by simp

text \<open>The count the claim names, 3, is not the one the tracker reports.\<close>

theorem tracker_abc_stream_counterexample:
  "get_result (snd (process_all (LIdentifyingAttack 3 2 100)
      [''a'', ''b'', ''c'', ''a'', ''b'', ''c'', ''a'', ''b'', ''c'']))
     \<noteq> [(sort [''a'', ''b'', ''c''], 3)]"
  unfolding abc_stream_result get_result_def by simp

text \<open>
  Claim C6. A window of \<open>L\<close> tokens and any permutation of it have the same signature,
  which is the sorted list of the window's tokens with duplicates kept; two trackers that
  differ only in holding one or the other window update their tables in the same way.
\<close>

theorem signature_permutation_invariant:
  assumes "int (length xs) = L" and "mset ys = mset xs"
  shows "window_signature L ys = window_signature L xs \<and>
         mset (window_signature L xs) = mset xs \<and>
         sorted (window_signature L xs) \<and>
         length (window_signature L xs) = length xs \<and>
         (\<forall>t q q' w'. length_l t = L \<and> current_window t @ [q] = xs \<and> w' @ [q'] = ys \<longrightarrow>
            query_dict (snd (process (t\<lparr>current_window := w'\<rparr>) q'))
              = query_dict (snd (process t q)))"
proof -
  have len: "int (length ys) = L"
    using assms mset_eq_length[of ys xs] by simp
  have sig: "window_signature L ys = window_signature L xs"
    using len assms(1) sort_perm_eq[OF assms(2)] by (simp add: window_signature_full)
  have props: "mset (window_signature L xs) = mset xs" "sorted (window_signature L xs)"
      "length (window_signature L xs) = length xs"
    using assms by (simp_all add: window_signature_full)
  have "query_dict (snd (process (t\<lparr>current_window := w'\<rparr>) q')) = query_dict (snd (process t q))"
    if "length_l t = L" "current_window t @ [q] = xs" "w' @ [q'] = ys" for t q q' w'
  proof -
    have l1: "int (length (current_window t)) + 1 = length_l t"
      using that assms(1) by auto
    have l2: "int (length (current_window (t\<lparr>current_window := w'\<rparr>))) + 1
                = length_l (t\<lparr>current_window := w'\<rparr>)"
      using that len by auto
    have "sort (w' @ [q']) = sort (current_window t @ [q])"
      using that assms(2) by (intro sort_perm_eq) simp
    then show ?thesis
      by (simp add: process_query_dict_fit[OF l1] process_query_dict_fit[OF l2] Let_def)
  qed
  with sig props show ?thesis by blast
qed

theorem signature_permutation_invariant_witness:
  "int (length [''b'', ''a'', ''b'']) = 3 \<and>
   mset [''b'', ''b'', ''a''] = mset [''b'', ''a'', ''b''] \<and>
   window_signature 3 [''b'', ''b'', ''a''] = [''a'', ''b'', ''b''] \<and>
   window_signature 3 [''b'', ''a'', ''b''] = [''a'', ''b'', ''b''] \<and>
   query_dict (snd (process
      ((LIdentifyingAttack 3 2 100)\<lparr>current_window := [''b'', ''b'']\<rparr>) ''a''))
     = [([''a'', ''b'', ''b''], 1)] \<and>
   query_dict (snd (process
      ((LIdentifyingAttack 3 2 100)\<lparr>current_window := [''b'', ''a'']\<rparr>) ''b''))
     = [([''a'', ''b'', ''b''], 1)]"
proof -
  let ?t = "(LIdentifyingAttack 3 2 100)\<lparr>current_window := [''b'', ''a'']\<rparr>"
  have h1: "int (length [''b'', ''a'', ''b'']) = 3" by simp
  have h2: "mset [''b'', ''b'', ''a''] = mset [''b'', ''a'', ''b'']" by simp
  note th = signature_permutation_invariant [OF h1 h2]
  have s1: "window_signature 3 [''b'', ''a'', ''b''] = [''a'', ''b'', ''b'']"
    by (simp add: window_signature_def py_slice_to_def py_stop_def)
  have s2: "window_signature 3 [''b'', ''b'', ''a''] = [''a'', ''b'', ''b'']"
    using th s1 by simp
  have p1: "query_dict (snd (process ?t ''b'')) = [([''a'', ''b'', ''b''], 1)]"
    by (simp add: process_def Let_def LIdentifyingAttack_def count_signature_eq s1
        dict_contains_def keys_def dict_set_def)
  have "length_l ?t = 3 \<and> current_window ?t @ [''b''] = [''b'', ''a'', ''b''] \<and>
        [''b'', ''b''] @ [''a''] = [''b'', ''b'', ''a'']"
    by (simp add: LIdentifyingAttack_def)
  with th have "query_dict (snd (process (?t\<lparr>current_window := [''b'', ''b'']\<rparr>) ''a''))
        = query_dict (snd (process ?t ''b''))"
    by blast
  then have p2: "query_dict (snd (process
      ((LIdentifyingAttack 3 2 100)\<lparr>current_window := [''b'', ''b'']\<rparr>) ''a''))
     = [([''a'', ''b'', ''b''], 1)]"
    using p1 by simp
  from h1 h2 s1 s2 p1 p2 show ?thesis by blast
qed

text \<open>
  Claim C7. After a pruning pass every entry left has a count of at least
  \<open>prune_threshold\<close>, and \<open>process\<close> runs the pass whenever the token counter reaches a
  multiple of \<open>prune_interval\<close>.
\<close>

theorem prune_bound:
  "(\<forall>(seq, count) \<in> set (query_dict (prune t)). prune_threshold t \<le> count) \<and>
   (prune_interval t \<noteq> 0 \<and> (query_count t + 1) mod prune_interval t = 0 \<longrightarrow>
      fst (process t q) = None \<and>
      (\<forall>(seq, count) \<in> set (get_result (snd (process t q))). prune_threshold t \<le> count))"
  by (auto simp: prune_def process_def Let_def get_result_def)

theorem prune_bound_witness:
  "(2::int) \<noteq> 0 \<and> (1 + 1) mod (2::int) = 0 \<and>
   fst (process \<lparr>query_dict = [([''a''], 1), ([''b''], 5), ([''c''], 2)], current_window = [],
          query_count = 1, length_l = 1, prune_threshold = 3, prune_interval = 2\<rparr> ''c'') = None \<and>
   get_result (snd (process \<lparr>query_dict = [([''a''], 1), ([''b''], 5), ([''c''], 2)],
          current_window = [], query_count = 1, length_l = 1, prune_threshold = 3,
          prune_interval = 2\<rparr> ''c'')) = [([''b''], 5), ([''c''], 3)]"
proof -
  let ?t = "\<lparr>query_dict = [([''a''], 1), ([''b''], 5), ([''c''], 2)], current_window = [],
          query_count = 1, length_l = 1, prune_threshold = 3, prune_interval = 2\<rparr>"
  have h: "prune_interval ?t \<noteq> 0 \<and> (query_count ?t + 1) mod prune_interval ?t = 0"
    by simp
  from prune_bound [of ?t "''c''"] h
  have ok: "fst (process ?t ''c'') = None" by blast
  have res: "get_result (snd (process ?t ''c'')) = [([''b''], 5), ([''c''], 3)]"
    by (simp add: process_def Let_def get_result_def prune_def count_signature_eq
        window_signature_def py_slice_to_def py_stop_def dict_contains_def keys_def
        dict_add_def)
  from ok res show ?thesis by simp
qed

text \<open>
  Claim C10. \<open>reset\<close> empties the table and zeroes the counter but keeps the window
  buffer, so the first window counted after a reset is cut from the old buffer followed by
  the new token; with a full buffer it is the old window itself.
\<close>

theorem reset_keeps_window:
  "query_dict (reset t) = [] \<and> query_count (reset t) = 0 \<and>
   current_window (reset t) = current_window t \<and>
   (prune_interval t \<noteq> 1 \<and> prune_interval t \<noteq> - 1 \<longrightarrow>
      get_result (snd (process (reset t) q)) =
        (if length_l t \<le> int (length (current_window t)) + 1
         then [(window_signature (length_l t) (current_window t @ [q]), 1)] else [])) \<and>
   (int (length (current_window t)) = length_l t \<longrightarrow>
      window_signature (length_l t) (current_window t @ [q]) = sort (current_window t))"
  by (auto simp: reset_def process_def Let_def get_result_def prune_def one_mod_zero_iff
      count_signature_eq dict_contains_def keys_def dict_set_def window_signature_overfull)

theorem reset_keeps_window_witness:
  "current_window (reset \<lparr>query_dict = [([''a'', ''b''], 4)], current_window = [''b'', ''a''],
          query_count = 5, length_l = 2, prune_threshold = 2, prune_interval = 100\<rparr>)
     = [''b'', ''a''] \<and>
   get_result (snd (process (reset \<lparr>query_dict = [([''a'', ''b''], 4)],
          current_window = [''b'', ''a''], query_count = 5, length_l = 2, prune_threshold = 2,
          prune_interval = 100\<rparr>) ''z'')) = [([''a'', ''b''], 1)]"
proof -
  let ?t = "\<lparr>query_dict = [([''a'', ''b''], 4)], current_window = [''b'', ''a''],
          query_count = 5, length_l = 2, prune_threshold = 2, prune_interval = 100\<rparr>"
  note th = reset_keeps_window [of ?t "''z''"]
  have h1: "prune_interval ?t \<noteq> 1 \<and> prune_interval ?t \<noteq> - 1" by simp
  have h2: "int (length (current_window ?t)) = length_l ?t" by simp
  from th have w: "current_window (reset ?t) = current_window ?t" by blast
  from th h1 have "get_result (snd (process (reset ?t) ''z'')) =
        (if length_l ?t \<le> int (length (current_window ?t)) + 1
         then [(window_signature (length_l ?t) (current_window ?t @ [''z'']), 1)] else [])"
    by blast
  moreover from th h2
  have "window_signature (length_l ?t) (current_window ?t @ [''z'']) = sort (current_window ?t)"
    by blast
  ultimately have "get_result (snd (process (reset ?t) ''z'')) = [([''a'', ''b''], 1)]"
    by simp
  with w show ?thesis by simp
qed

section \<open>Properties of the combiner\<close>

lemma scan_lengths_aligned:
  "length cr = pos + length ls \<Longrightarrow>
   \<exists>cr' rd'. scan_lengths ql ls pos cr rd sp = (None, cr', rd', last_le ql ls pos sp) \<and>
             length cr' = length cr"
proof (induction ls arbitrary: pos cr rd sp)
  case Nil
  then show ?case by simp
next
  case (Cons l ls)
  have len: "length cr = Suc pos + length ls" and pos: "pos < length cr"
    using Cons.prems by simp_all
  show ?case
  proof (cases "l < ql")
    case True
    show ?thesis
    proof (cases "keys rd = []")
      case True
      with \<open>l < ql\<close> Cons.IH[OF len, of rd "int pos"] show ?thesis by simp
    next
      case False
      let ?cr = "cr[pos := fold (pop_slices l (ql - l)) (keys rd) (cr ! pos)]"
      have "length ?cr = Suc pos + length ls" using len by simp
      from Cons.IH[OF this, of rd "int pos"] False \<open>l < ql\<close> pos show ?thesis by simp
    qed
  next
    case False
    show ?thesis
    proof (cases "ql < l")
      case True
      with False pos
        Cons.IH[OF len, of "fold (pop_slices ql (l - ql)) (keys (cr ! pos)) rd" sp]
      show ?thesis by simp
    next
      case False
      with \<open>\<not> l < ql\<close> Cons.IH[OF len, of rd "int pos"] show ?thesis by simp
    qed
  qed
qed

lemma last_le_ge: "sp \<ge> - 1 \<Longrightarrow> last_le ql ls pos sp \<ge> - 1"
  by (induction ls arbitrary: pos sp) auto

lemma last_le_none:
  "\<forall>l \<in> set ls. ql < l \<Longrightarrow> last_le ql ls pos sp = sp"
  by (induction ls arbitrary: pos sp) auto

lemma last_le_sorted:
  "sorted_wrt (<) ls \<Longrightarrow> \<exists>l \<in> set ls. l \<le> ql \<Longrightarrow>
     last_le ql ls pos sp = int pos + int (length (filter (\<lambda>l. l \<le> ql) ls)) - 1"
proof (induction ls arbitrary: pos sp)
  case Nil
  then show ?case by simp
next
  case (Cons l ls)
  show ?case
  proof (cases "\<exists>l' \<in> set ls. l' \<le> ql")
    case True
    then have "l \<le> ql" using Cons.prems(1) by fastforce
    with True Cons show ?thesis by simp
  next
    case False
    then have all: "\<forall>l' \<in> set ls. ql < l'" by auto
    then have "filter (\<lambda>l. l \<le> ql) ls = []" by (auto simp: filter_empty_conv)
    moreover have "l \<le> ql" using Cons.prems(2) False by auto
    ultimately show ?thesis using last_le_none[OF all] by simp
  qed
qed

lemma sorted_filter_prefix:
  "sorted_wrt (<) ls \<Longrightarrow>
     take (length (filter (\<lambda>l. l \<le> (ql::int)) ls)) ls = filter (\<lambda>l. l \<le> ql) ls \<and>
     drop (length (filter (\<lambda>l. l \<le> ql) ls)) ls = filter (\<lambda>l. ql < l) ls"
proof (induction ls)
  case Nil
  then show ?case by simp
next
  case (Cons l ls)
  show ?case
  proof (cases "l \<le> ql")
    case True
    with Cons show ?thesis by simp
  next
    case False
    then have "\<forall>l' \<in> set ls. \<not> l' \<le> ql" using Cons.prems by fastforce
    then have "filter (\<lambda>l. l \<le> ql) ls = []" "filter (\<lambda>l. ql < l) ls = ls"
      by (auto simp: filter_empty_conv filter_id_conv)
    with False show ?thesis by simp
  qed
qed

lemma load_first:
  "combined_results s = [] \<Longrightarrow>
     load_l_identifying_result s d L =
       (None, s\<lparr>combined_results := [d], lengths_processed := lengths_processed s @ [L]\<rparr>, d)"
  by (simp add: load_l_identifying_result_def)

lemma py_index_minus_one:
  "xs \<noteq> [] \<Longrightarrow> py_index xs (- 1) = Some (length xs - 1)"
  by (cases xs) (auto simp: py_index_def Let_def)

lemma py_index_nat:
  "0 \<le> i \<Longrightarrow> nat i < length xs \<Longrightarrow> py_index xs i = Some (nat i)"
  by (auto simp: py_index_def Let_def)

lemma py_insert_nat: "0 \<le> i \<Longrightarrow> py_insert xs i x = take (nat i) xs @ x # drop (nat i) xs"
  by (simp add: py_insert_def Let_def)

lemma py_index_pred:
  "0 < k \<Longrightarrow> k \<le> length xs \<Longrightarrow> py_index xs (int k - 1) = Some (k - 1)"
  by (auto simp: py_index_def Let_def nat_diff_distrib')

lemma load_too_small:
  assumes "comb_inv s" "combined_results s \<noteq> []" "\<forall>l \<in> set (lengths_processed s). L < l"
  shows "\<exists>s' d'. load_l_identifying_result s d L = (Some ValueError, s', d') \<and>
           lengths_processed s' = lengths_processed s \<and>
           length (combined_results s') = length (combined_results s)"
proof -
  let ?ls = "lengths_processed s"
  have len: "length (combined_results s) = 0 + length ?ls"
    using assms(1) by (simp add: comb_inv_def)
  from scan_lengths_aligned[OF len, of L d "- 1"] obtain cr' rd' where
    sc: "scan_lengths L ?ls 0 (combined_results s) d (- 1) = (None, cr', rd', last_le L ?ls 0 (- 1))"
    and l': "length cr' = length (combined_results s)" by blast
  have sp: "last_le L ?ls 0 (- 1) = - 1" using last_le_none[OF assms(3)] by simp
  have ne: "?ls \<noteq> []" using assms(2) len by auto
  then have "last ?ls \<in> set ?ls" by simp
  then have "L < ?ls ! (length ?ls - 1)" using assms(3) ne by (simp add: last_conv_nth)
  then show ?thesis
    using sc sp l' assms(2) py_index_minus_one[OF ne]
    by (simp add: load_l_identifying_result_def)
qed

lemma sorted_last_le:
  assumes "sorted_wrt (<) ls" "\<exists>l \<in> set ls. l \<le> (L::int)"
  defines "k \<equiv> length (filter (\<lambda>l. l \<le> L) ls)"
  shows "0 < k" "k \<le> length ls" "ls ! (k - 1) \<le> L" "(ls ! (k - 1) = L) = (L \<in> set ls)"
proof -
  let ?f = "filter (\<lambda>l. l \<le> L) ls"
  have fne: "?f \<noteq> []" using assms(2) by (auto simp: filter_empty_conv)
  then show k0: "0 < k" by (simp add: k_def)
  show kl: "k \<le> length ls" by (simp add: k_def)
  have tk: "take k ls = ?f" using sorted_filter_prefix[OF assms(1), of L] by (simp add: k_def)
  have "ls ! (k - 1) = (take k ls) ! (k - 1)" using k0 by simp
  also have "\<dots> = last ?f" using tk fne by (simp add: last_conv_nth k_def)
  finally have eq: "ls ! (k - 1) = last ?f" .
  have "last ?f \<in> set ?f" using fne by (rule last_in_set)
  then show le: "ls ! (k - 1) \<le> L" using eq by simp
  have sf: "sorted ?f" using assms(1) by (simp add: sorted_wrt_filter strict_sorted_imp_sorted)
  show "(ls ! (k - 1) = L) = (L \<in> set ls)"
  proof
    assume "ls ! (k - 1) = L"
    then show "L \<in> set ls" using k0 kl by (metis diff_less less_le_trans nth_mem zero_less_one)
  next
    assume "L \<in> set ls"
    then have "L \<in> set ?f" by simp
    then obtain i where i: "i < length ?f" "?f ! i = L" unfolding in_set_conv_nth by blast
    then have "?f ! i \<le> ?f ! (length ?f - 1)"
      using sf by (intro sorted_nth_mono) auto
    then have "L \<le> last ?f" using i fne by (simp add: last_conv_nth)
    with le eq show "ls ! (k - 1) = L" by simp
  qed
qed

lemma load_present:
  assumes "comb_inv s" "combined_results s \<noteq> []" "L \<in> set (lengths_processed s)"
  shows "\<exists>s' d'. load_l_identifying_result s d L = (None, s', d') \<and>
           lengths_processed s' = lengths_processed s \<and>
           length (combined_results s') = length (combined_results s)"
proof -
  let ?ls = "lengths_processed s"
  let ?k = "length (filter (\<lambda>l. l \<le> L) ?ls)"
  have srt: "sorted_wrt (<) ?ls" and len: "length (combined_results s) = 0 + length ?ls"
    using assms(1) by (simp_all add: comb_inv_def)
  have ex: "\<exists>l \<in> set ?ls. l \<le> L" using assms(3) by auto
  from scan_lengths_aligned[OF len, of L d "- 1"] obtain cr' rd' where
    sc: "scan_lengths L ?ls 0 (combined_results s) d (- 1) = (None, cr', rd', last_le L ?ls 0 (- 1))"
    and l': "length cr' = length (combined_results s)" by blast
  have sp: "last_le L ?ls 0 (- 1) = int ?k - 1" using last_le_sorted[OF srt ex, of 0 "- 1"] by simp
  note k = sorted_last_le[OF srt ex]
  have nat: "nat (int ?k - 1) = ?k - 1" by simp
  have i1: "py_index ?ls (int ?k - 1) = Some (?k - 1)"
    using k(1,2) by (rule py_index_pred)
  have i2: "py_index cr' (int ?k - 1) = Some (?k - 1)"
    using k(1,2) l' len by (intro py_index_pred) simp_all
  have "?ls ! (?k - 1) = L" using k(4) assms(3) by simp
  then show ?thesis
    using sc sp l' assms(2) i1 i2 by (simp add: load_l_identifying_result_def)
qed

lemma load_new:
  assumes "comb_inv s" "combined_results s \<noteq> []" "L \<notin> set (lengths_processed s)"
    "\<exists>l \<in> set (lengths_processed s). l \<le> L"
  shows "\<exists>s' d'. load_l_identifying_result s d L = (None, s', d') \<and>
           lengths_processed s' =
             filter (\<lambda>l. l \<le> L) (lengths_processed s) @ L # filter (\<lambda>l. L < l) (lengths_processed s) \<and>
           length (combined_results s') = Suc (length (combined_results s))"
proof -
  let ?ls = "lengths_processed s"
  let ?k = "length (filter (\<lambda>l. l \<le> L) ?ls)"
  have srt: "sorted_wrt (<) ?ls" and len: "length (combined_results s) = 0 + length ?ls"
    using assms(1) by (simp_all add: comb_inv_def)
  from scan_lengths_aligned[OF len, of L d "- 1"] obtain cr' rd' where
    sc: "scan_lengths L ?ls 0 (combined_results s) d (- 1) = (None, cr', rd', last_le L ?ls 0 (- 1))"
    and l': "length cr' = length (combined_results s)" by blast
  have sp: "last_le L ?ls 0 (- 1) = int ?k - 1"
    using last_le_sorted[OF srt assms(4), of 0 "- 1"] by simp
  note k = sorted_last_le[OF srt assms(4)]
  have nat: "nat (int ?k - 1) = ?k - 1" by simp
  have i1: "py_index ?ls (int ?k - 1) = Some (?k - 1)"
    using k(1,2) by (rule py_index_pred)
  have lt: "?ls ! (?k - 1) < L" using k(3,4) assms(3) by simp
  have ins: "py_insert ?ls (int ?k - 1 + 1) L = filter (\<lambda>l. l \<le> L) ?ls @ L # filter (\<lambda>l. L < l) ?ls"
    using sorted_filter_prefix[OF srt, of L] by (simp add: py_insert_def Let_def)
  have "length (py_insert cr' (int ?k - 1 + 1) rd') = Suc (length cr')"
    using k(2) l' len by (simp add: py_insert_def Let_def)
  then show ?thesis
    using sc sp l' assms(2) i1 lt ins by (simp add: load_l_identifying_result_def)
qed

lemma comb_inv_first:
  "comb_inv s \<Longrightarrow> combined_results s = [] \<Longrightarrow>
     comb_inv (s\<lparr>combined_results := [d], lengths_processed := lengths_processed s @ [L]\<rparr>)"
  by (simp add: comb_inv_def)

lemma sorted_insert_new:
  assumes "sorted_wrt (<) ls" "(L::int) \<notin> set ls"
  shows "sorted_wrt (<) (filter (\<lambda>l. l \<le> L) ls @ L # filter (\<lambda>l. L < l) ls)"
proof -
  have "\<forall>x \<in> set (filter (\<lambda>l. l \<le> L) ls). x < L" using assms(2) by (auto simp: less_le)
  then show ?thesis
    using assms(1) by (auto simp: sorted_wrt_append sorted_wrt_filter)
qed

lemma sorted_hd_min: "sorted_wrt (<) ls \<Longrightarrow> (l::int) \<in> set ls \<Longrightarrow> hd ls \<le> l"
  by (cases ls) auto

lemma load_all_from:
  assumes "comb_inv s" "lengths_processed s \<noteq> []" "distinct (map snd xs)"
    "snd ` set xs \<inter> set (lengths_processed s) = {}"
  shows "fst (load_all s xs) =
           (if \<forall>x \<in> set xs. hd (lengths_processed s) < snd x then None else Some ValueError) \<and>
         (fst (load_all s xs) = None \<longrightarrow>
            comb_inv (snd (load_all s xs)) \<and>
            set (lengths_processed (snd (load_all s xs))) = set (lengths_processed s) \<union> snd ` set xs \<and>
            length (combined_results (snd (load_all s xs))) = length (combined_results s) + length xs)"
  using assms
proof (induction xs arbitrary: s)
  case Nil
  then show ?case by simp
next
  case (Cons x xs)
  obtain d L where x: "x = (d, L)" by (cases x)
  let ?ls = "lengths_processed s"
  have srt: "sorted_wrt (<) ?ls" and len: "length (combined_results s) = length ?ls"
    using Cons.prems(1) by (simp_all add: comb_inv_def)
  have cne: "combined_results s \<noteq> []" using len Cons.prems(2) by auto
  have Lnew: "L \<notin> set ?ls" using Cons.prems(4) x by auto
  have hd_in: "hd ?ls \<in> set ?ls" using Cons.prems(2) by simp
  show ?case
  proof (cases "hd ?ls < L")
    case False
    then have "L < hd ?ls" using Lnew hd_in by (metis linorder_neqE_linordered_idom)
    then have "\<forall>l \<in> set ?ls. L < l" using sorted_hd_min[OF srt] by fastforce
    from load_too_small[OF Cons.prems(1) cne this, of d] False x
    show ?thesis by auto
  next
    case True
    then have ex: "\<exists>l \<in> set ?ls. l \<le> L" using hd_in by (intro bexI[of _ "hd ?ls"]) simp_all
    from load_new[OF Cons.prems(1) cne Lnew ex, of d] obtain s' d' where
      ld: "load_l_identifying_result s d L = (None, s', d')"
      and ls': "lengths_processed s' = filter (\<lambda>l. l \<le> L) ?ls @ L # filter (\<lambda>l. L < l) ?ls"
      and cr': "length (combined_results s') = Suc (length (combined_results s))" by blast
    have inv': "comb_inv s'"
      using ls' cr' len sorted_insert_new[OF srt Lnew] sum_length_filter_compl[of "\<lambda>l. l \<le> L" ?ls]
      by (simp add: comb_inv_def not_le)
    have ne': "lengths_processed s' \<noteq> []" using ls' by simp
    have set': "set (lengths_processed s') = insert L (set ?ls)" using ls' by auto
    have hd': "hd (lengths_processed s') = hd ?ls"
      using ls' True Cons.prems(2) by (cases ?ls) auto
    have d': "distinct (map snd xs)" using Cons.prems(3) by simp
    have disj': "snd ` set xs \<inter> set (lengths_processed s') = {}"
      using Cons.prems(3,4) set' x by auto
    note IH = Cons.IH[OF inv' ne' d' disj']
    have la: "load_all s (x # xs) = load_all s' xs" using ld x by simp
    show ?thesis
      unfolding la using IH True x cr' set' hd' by auto
  qed
qed

lemma load_all_fresh:
  assumes "distinct (map snd xs)"
  shows "fst (load_all RangeCombiningAttack xs) =
           (if \<forall>x \<in> set (tl xs). snd (hd xs) < snd x then None else Some ValueError) \<and>
         (fst (load_all RangeCombiningAttack xs) = None \<longrightarrow>
            lengths_processed (snd (load_all RangeCombiningAttack xs)) = sort (map snd xs) \<and>
            length (combined_results (snd (load_all RangeCombiningAttack xs))) = length xs)"
proof (cases xs)
  case Nil
  then show ?thesis by (simp add: RangeCombiningAttack_def)
next
  case (Cons x rest)
  obtain d L where x: "x = (d, L)" by (cases x)
  let ?s = "RangeCombiningAttack\<lparr>combined_results := [d], lengths_processed := [L]\<rparr>"
  have la: "load_all RangeCombiningAttack xs = load_all ?s rest"
    using Cons x by (simp add: load_first RangeCombiningAttack_def)
  have inv: "comb_inv ?s" by (simp add: comb_inv_def)
  have ne: "lengths_processed ?s \<noteq> []" by simp
  have d: "distinct (map snd rest)" using assms Cons by simp
  have disj: "snd ` set rest \<inter> set (lengths_processed ?s) = {}" using assms Cons x by auto
  note r = load_all_from[OF inv ne d disj]
  have first: "fst (load_all RangeCombiningAttack xs) =
           (if \<forall>x \<in> set (tl xs). snd (hd xs) < snd x then None else Some ValueError)"
    unfolding la using r Cons x by simp
  have "lengths_processed (snd (load_all ?s rest)) = sort (map snd xs) \<and>
        length (combined_results (snd (load_all ?s rest))) = length xs"
    if ok: "fst (load_all ?s rest) = None"
  proof -
    let ?r = "lengths_processed (snd (load_all ?s rest))"
    from r ok have i: "comb_inv (snd (load_all ?s rest))"
      and st: "set ?r = set (lengths_processed ?s) \<union> snd ` set rest"
      and ln: "length (combined_results (snd (load_all ?s rest))) = length (combined_results ?s) + length rest"
      by blast+
    have "sorted_wrt (<) ?r" using i by (simp add: comb_inv_def)
    then have s1: "sorted ?r" "distinct ?r" by (simp_all add: strict_sorted_iff)
    have s2: "sorted (sort (map snd xs))" "distinct (sort (map snd xs))" using assms by simp_all
    have "set (sort (map snd xs)) = snd ` set xs" by (simp only: set_sort set_map)
    moreover have "snd ` set xs = insert L (snd ` set rest)" using Cons x by simp
    ultimately have "set ?r = set (sort (map snd xs))" using st by simp
    then have "?r = sort (map snd xs)"
      using s1 s2 by (intro sorted_distinct_set_unique) simp_all
    then show ?thesis using ln Cons by simp
  qed
  then show ?thesis using first la by simp
qed

text \<open>
  Claim C2, at a failing input. A table of length 3 is loaded into a fresh combiner, then
  a table of length 2. No stored length is at most 2, so \<open>smaller_pos\<close> keeps its initial
  value \<open>-1\<close>; \<open>self._lengths_processed[-1]\<close> then reads the last stored length, 3, and the
  call ends in \<open>ValueError\<close>. By then the caller's dict has lost \<open>(a,b)\<close>, a slice of the
  stored \<open>(a,b,c)\<close>, and nothing has been stored: the combiner holds the one table of
  length 3. A new length that lies between stored ones is inserted without an exception,
  as the loads of lengths 2, 5, 3 show.
\<close>

theorem load_smaller_length_raises:
  "load_l_identifying_result
      \<lparr>combined_results = [[([''a'', ''b'', ''c''], 2)]], lengths_processed = [3]\<rparr>
      [([''a'', ''b''], 2), ([''x'', ''y''], 2)] 2
     = (Some ValueError,
        \<lparr>combined_results = [[([''a'', ''b'', ''c''], 2)]], lengths_processed = [3]\<rparr>,
        [([''x'', ''y''], 2)]) \<and>
   load_all RangeCombiningAttack
      [([([''a'', ''b'', ''c''], 2)], 3), ([([''a'', ''b''], 2), ([''x'', ''y''], 2)], 2)]
     = (Some ValueError,
        \<lparr>combined_results = [[([''a'', ''b'', ''c''], 2)]], lengths_processed = [3]\<rparr>) \<and>
   load_all RangeCombiningAttack
      [([([''p'', ''q''], 2)], 2), ([([''a'', ''b'', ''c'', ''d'', ''e''], 2)], 5),
       ([([''x'', ''y'', ''z''], 2)], 3)]
     = (None,
        \<lparr>combined_results = [[([''p'', ''q''], 2)], [([''x'', ''y'', ''z''], 2)],
                              [([''a'', ''b'', ''c'', ''d'', ''e''], 2)]],
          lengths_processed = [2, 3, 5]\<rparr>)"
  by code_simp

text \<open>
  Claim C3, at a failing input. A table of length 2 holding \<open>(a,b)\<close> and \<open>(b,c)\<close> is
  loaded, then a table of length 3 holding \<open>(a,b,c)\<close>. The loop \<open>range(query_length - l)\<close>
  visits offset 0 only: \<open>(a,b)\<close> is removed, and \<open>(b,c)\<close>, the slice of \<open>(a,b,c)\<close> at the
  last offset 1, stays in the first table.
\<close>

theorem suffix_slice_survives:
  "load_all RangeCombiningAttack
      [([([''a'', ''b''], 2), ([''b'', ''c''], 2)], 2), ([([''a'', ''b'', ''c''], 2)], 3)]
     = (None, \<lparr>combined_results = [[([''b'', ''c''], 2)], [([''a'', ''b'', ''c''], 2)]],
               lengths_processed = [2, 3]\<rparr>) \<and>
   py_slice [''a'', ''b'', ''c''] 1 (1 + 2) = [''b'', ''c'']"
  by (simp add: RangeCombiningAttack_def load_l_identifying_result_def py_index_def
      py_insert_def keys_def pop_slices_def py_slice_def py_stop_def dict_contains_def
      dict_pop_def)

lemma dict_pop_absent: "\<not> dict_contains t k \<Longrightarrow> dict_pop t k = t"
  by (force simp: dict_contains_def dict_pop_def keys_def filter_id_conv)

lemma pop_fold_filter:
  "fold (\<lambda>i t. if dict_contains t (f i) then dict_pop t (f i) else t) is tbl
     = filter (\<lambda>(k, v). k \<notin> f ` set is) tbl"
proof (induction "is" arbitrary: tbl)
  case Nil
  then show ?case by simp
next
  case (Cons i "is")
  have "(if dict_contains tbl (f i) then dict_pop tbl (f i) else tbl) = dict_pop tbl (f i)"
    by (simp add: dict_pop_absent)
  then show ?case
    using Cons.IH[of "dict_pop tbl (f i)"]
    by (auto simp: dict_pop_def intro: filter_cong)
qed

lemma pop_slices_filter:
  "pop_slices w n s tbl = prune_by w n [s] tbl"
  unfolding pop_slices_def prune_by_def slices_of_def
  by (simp add: pop_fold_filter lessThan_atLeast0)

lemma slices_of_Cons: "slices_of w n (s # ks) = slices_of w n [s] \<union> slices_of w n ks"
  by (auto simp: slices_of_def)

lemma slices_of_Nil [simp]: "slices_of w n [] = {}"
  by (simp add: slices_of_def)

lemma fold_pop_slices:
  "fold (pop_slices w n) ks tbl = prune_by w n ks tbl"
proof (induction ks arbitrary: tbl)
  case Nil
  then show ?case by (simp add: prune_by_def)
next
  case (Cons s ks)
  have "fold (pop_slices w n) (s # ks) tbl = fold (pop_slices w n) ks (pop_slices w n s tbl)"
    by simp
  also have "\<dots> = prune_by w n ks (prune_by w n [s] tbl)"
    by (simp only: Cons.IH pop_slices_filter)
  also have "\<dots> = prune_by w n (s # ks) tbl"
    by (auto simp: prune_by_def slices_of_Cons[of w n s ks] intro: filter_cong)
  finally show ?case .
qed

lemma prune_by_Nil [simp]: "prune_by w n [] tbl = tbl"
  by (simp add: prune_by_def)

lemma length_tables_after [simp]: "length (tables_after ql zs rd) = length zs"
  by (induction zs arbitrary: rd) auto

lemma scan_lengths_content:
  "length cr = pos + length ls \<Longrightarrow>
   scan_lengths ql ls pos cr rd sp =
     (None, take pos cr @ tables_after ql (zip ls (drop pos cr)) rd,
      rd_after ql (zip ls (drop pos cr)) rd, last_le ql ls pos sp)"
proof (induction ls arbitrary: pos cr rd sp)
  case Nil
  then show ?case by simp
next
  case (Cons l ls)
  have len: "length cr = Suc pos + length ls" and pos: "pos < length cr"
    using Cons.prems by simp_all
  have dr: "drop pos cr = cr ! pos # drop (Suc pos) cr"
    using pos by (simp add: Cons_nth_drop_Suc)
  have tk: "take (Suc pos) cr = take pos cr @ [cr ! pos]"
    using pos by (simp add: take_Suc_conv_app_nth)
  show ?case
  proof (cases "l < ql")
    case True
    let ?T = "prune_by l (ql - l) (keys rd) (cr ! pos)"
    let ?cr = "cr[pos := ?T]"
    have len': "length ?cr = Suc pos + length ls" using len by simp
    have tk': "take (Suc pos) ?cr = take pos cr @ [?T]"
      using pos by (simp add: take_Suc_conv_app_nth)
    have dr': "drop (Suc pos) ?cr = drop (Suc pos) cr" by simp
    show ?thesis
    proof (cases "keys rd = []")
      case True
      with \<open>l < ql\<close> Cons.IH[OF len, of rd "int pos"] dr tk show ?thesis by simp
    next
      case False
      with \<open>l < ql\<close> pos Cons.IH[OF len', of rd "int pos"] dr tk' dr'
      show ?thesis by (simp add: fold_pop_slices)
    qed
  next
    case False
    show ?thesis
    proof (cases "ql < l")
      case True
      with False pos dr tk
        Cons.IH[OF len, of "prune_by ql (l - ql) (keys (cr ! pos)) rd" sp]
      show ?thesis by (simp add: fold_pop_slices)
    next
      case False
      with \<open>\<not> l < ql\<close> Cons.IH[OF len, of rd "int pos"] dr tk show ?thesis by simp
    qed
  qed
qed

lemma prune_by_twice:
  "prune_by w n ks (prune_by w' n' ks' tbl) =
     filter (\<lambda>(k, v). k \<notin> slices_of w n ks \<union> slices_of w' n' ks') tbl"
  by (auto simp: prune_by_def intro: filter_cong)

lemma rd_after_filter:
  "rd_after ql zs rd = filter (\<lambda>(k, v). k \<notin> big ql zs) rd"
proof (induction zs arbitrary: rd)
  case Nil
  then show ?case by simp
next
  case (Cons z zs)
  obtain l T where z: "z = (l, T)" by (cases z)
  show ?case
    unfolding z by (auto simp: Cons.IH prune_by_def intro: filter_cong)
qed

lemma big_tables_after:
  "big ql (zip (map fst zs) (tables_after ql zs rd)) = big ql zs"
  by (induction zs arbitrary: rd) auto

lemma slices_of_mono: "set ks2 \<subseteq> set ks \<Longrightarrow> slices_of w n ks2 \<subseteq> slices_of w n ks"
  by (auto simp: slices_of_def)

lemma prune_by_absorb:
  "set ks2 \<subseteq> set ks \<Longrightarrow> prune_by w n ks2 (prune_by w n ks T) = prune_by w n ks T"
  using slices_of_mono[of ks2 ks w n]
  by (auto simp: prune_by_def intro!: filter_cong)

lemma keys_prune_by:
  "set (keys (prune_by w n ks d)) = set (keys d) - slices_of w n ks"
  by (force simp: prune_by_def keys_def)

lemma tables_idem:
  "set (keys d2) \<subseteq> set (keys d) \<Longrightarrow>
     tables_after ql (zip (map fst zs) (tables_after ql zs d)) d2 = tables_after ql zs d"
proof (induction zs arbitrary: d d2)
  case Nil
  then show ?case by simp
next
  case (Cons z zs)
  obtain l T where z: "z = (l, T)" by (cases z)
  show ?case
  proof (cases "l < ql")
    case True
    with Cons.IH[OF Cons.prems] prune_by_absorb[OF Cons.prems] z show ?thesis by simp
  next
    case False
    show ?thesis
    proof (cases "ql < l")
      case True
      have "set (keys (prune_by ql (l - ql) (keys T) d2))
              \<subseteq> set (keys (prune_by ql (l - ql) (keys T) d))"
        using Cons.prems by (auto simp: keys_prune_by)
      from Cons.IH[OF this] True z show ?thesis by simp
    next
      case False
      with \<open>\<not> l < ql\<close> Cons.IH[OF Cons.prems] z show ?thesis by simp
    qed
  qed
qed

lemma tables_after_upd:
  "j < length zs \<Longrightarrow> fst (zs ! j) = ql \<Longrightarrow>
     tables_after ql (zs[j := (ql, X)]) rd = (tables_after ql zs rd)[j := X] \<and>
     big ql (zs[j := (ql, X)]) = big ql zs"
proof (induction zs arbitrary: j rd)
  case Nil
  then show ?case by simp
next
  case (Cons z zs)
  obtain l T where z: "z = (l, T)" by (cases z)
  show ?case
  proof (cases j)
    case 0
    with Cons.prems z show ?thesis by simp
  next
    case (Suc j')
    with Cons.prems have "j' < length zs" "fst (zs ! j') = ql" by simp_all
    from Cons.IH[OF this] Suc z show ?thesis by simp
  qed
qed

lemma tables_after_ins:
  "tables_after ql (take k zs @ (ql, X) # drop k zs) rd
     = take k (tables_after ql zs rd) @ X # drop k (tables_after ql zs rd) \<and>
   big ql (take k zs @ (ql, X) # drop k zs) = big ql zs"
proof (induction zs arbitrary: k rd)
  case Nil
  then show ?case by simp
next
  case (Cons z zs)
  obtain l T where z: "z = (l, T)" by (cases z)
  show ?case
  proof (cases k)
    case 0
    then show ?thesis by simp
  next
    case (Suc k')
    with Cons.IH[of k'] z show ?thesis by simp
  qed
qed

lemma keys_dict_set:
  "keys (dict_set d k v) = (if k \<in> set (keys d) then keys d else keys d @ [k])"
  by (auto simp: dict_set_def dict_contains_def keys_def intro!: map_idI)

lemma keys_fold_dict_set_within:
  "set (keys d) \<subseteq> set (keys T) \<Longrightarrow>
     keys (fold (\<lambda>(k, v) acc. dict_set acc k v) d T) = keys T"
proof (induction d arbitrary: T)
  case Nil
  then show ?case by simp
next
  case (Cons kv d)
  obtain k v where kv: "kv = (k, v)" by (cases kv)
  have k: "k \<in> set (keys T)" using Cons.prems kv by (simp add: keys_def)
  then have kT: "keys (dict_set T k v) = keys T" by (simp add: keys_dict_set)
  have "set (keys d) \<subseteq> set (keys (dict_set T k v))"
    using Cons.prems kT by (auto simp: keys_def)
  from Cons.IH[OF this] kT kv show ?case by simp
qed

lemma keys_dict_update_within:
  "set (keys d) \<subseteq> set (keys T) \<Longrightarrow> keys (dict_update T d) = keys T"
  by (simp add: dict_update_def keys_fold_dict_set_within)

lemma set_keys_fold_dict_set:
  "set (keys T) \<union> set (keys d) \<subseteq> set (keys (fold (\<lambda>(k, v) acc. dict_set acc k v) d T))"
proof (induction d arbitrary: T)
  case Nil
  then show ?case by (simp add: keys_def)
next
  case (Cons kv d)
  obtain k v where kv: "kv = (k, v)" by (cases kv)
  have a: "set (keys T) \<union> {k} \<subseteq> set (keys (dict_set T k v))"
    by (auto simp: keys_dict_set)
  have b: "set (keys (dict_set T k v)) \<union> set (keys d)
             \<subseteq> set (keys (fold (\<lambda>(k, v) acc. dict_set acc k v) d (dict_set T k v)))"
    by (rule Cons.IH)
  have c: "set (keys (kv # d)) = {k} \<union> set (keys d)" using kv by (simp add: keys_def)
  have d: "fold (\<lambda>(k, v) acc. dict_set acc k v) (kv # d) T
             = fold (\<lambda>(k, v) acc. dict_set acc k v) d (dict_set T k v)"
    using kv by simp
  show ?case unfolding c d using a b by blast
qed

lemma set_keys_dict_update:
  "set (keys d) \<subseteq> set (keys (dict_update T d))"
  using set_keys_fold_dict_set[of T d] by (simp add: dict_update_def)

lemma get_result_combined_concat:
  "get_result_combined s = concat (map keys (combined_results s))"
proof -
  have "fold (\<lambda>re_dict result_list. result_list @ keys re_dict) cr acc = acc @ concat (map keys cr)"
    for cr :: "sigtable list" and acc
    by (induction cr arbitrary: acc) auto
  then show ?thesis by (simp add: get_result_combined_def)
qed

lemma rd_after_again:
  assumes "big ql zs' = big ql zs" "d2 = d \<or> d2 = rd_after ql zs d"
  shows "rd_after ql zs' d2 = rd_after ql zs d"
  using assms by (auto simp: rd_after_filter)

lemma keys_rd_after_subset: "set (keys (rd_after ql zs d)) \<subseteq> set (keys d)"
  by (auto simp: rd_after_filter keys_def)

lemma map_fst_zip_eq: "length xs = length ys \<Longrightarrow> map fst (zip xs ys) = xs"
  by (simp add: map_fst_zip)

lemma load_content:
  fixes s :: combiner and d :: sigtable and L :: int
  assumes "comb_inv s" "combined_results s \<noteq> []"
  defines "ls \<equiv> lengths_processed s"
  defines "cr' \<equiv> tables_after L (zip (lengths_processed s) (combined_results s)) d"
  defines "d' \<equiv> rd_after L (zip (lengths_processed s) (combined_results s)) d"
  defines "k \<equiv> length (filter (\<lambda>l. l \<le> L) (lengths_processed s))"
  shows "load_l_identifying_result s d L =
     (if \<forall>l \<in> set ls. L < l then (Some ValueError, s\<lparr>combined_results := cr'\<rparr>, d')
      else if L \<in> set ls then
        (None, s\<lparr>combined_results := cr'[k - 1 := dict_update (cr' ! (k - 1)) d']\<rparr>, d')
      else
        (None, s\<lparr>lengths_processed := take k ls @ L # drop k ls,
                 combined_results := take k cr' @ d' # drop k cr'\<rparr>, d'))"
proof -
  have srt: "sorted_wrt (<) ls" and len: "length (combined_results s) = 0 + length ls"
    using assms(1) by (simp_all add: comb_inv_def ls_def)
  have sc: "scan_lengths L ls 0 (combined_results s) d (- 1) = (None, cr', d', last_le L ls 0 (- 1))"
    using scan_lengths_content[OF len, of L d "- 1"] by (simp add: cr'_def d'_def ls_def)
  have lcr: "length cr' = length ls" using len by (simp add: cr'_def ls_def)
  have ne: "ls \<noteq> []" using assms(2) len by auto
  show ?thesis
  proof (cases "\<forall>l \<in> set ls. L < l")
    case True
    have sp: "last_le L ls 0 (- 1) = - 1" using last_le_none[OF True] by simp
    have "last ls \<in> set ls" using ne by simp
    then have "L < ls ! (length ls - 1)" using True ne by (simp add: last_conv_nth)
    then show ?thesis
      using sc sp assms(2) py_index_minus_one[OF ne] True
      by (simp add: load_l_identifying_result_def ls_def[symmetric])
  next
    case False
    then have ex: "\<exists>l \<in> set ls. l \<le> L" by (meson not_less)
    have sp: "last_le L ls 0 (- 1) = int k - 1"
      using last_le_sorted[OF srt ex, of 0 "- 1"] by (simp add: k_def ls_def)
    have k0: "0 < k" and kl: "k \<le> length ls" and kle: "ls ! (k - 1) \<le> L"
      and keq: "(ls ! (k - 1) = L) = (L \<in> set ls)"
      using sorted_last_le[OF srt ex] by (simp_all add: k_def ls_def)
    have i1: "py_index ls (int k - 1) = Some (k - 1)" using k0 kl by (rule py_index_pred)
    have i2: "py_index cr' (int k - 1) = Some (k - 1)"
      using k0 kl lcr by (intro py_index_pred) simp_all
    show ?thesis
    proof (cases "L \<in> set ls")
      case True
      then have "ls ! (k - 1) = L" using keq by simp
      then show ?thesis
        using sc sp assms(2) i1 i2 True False
        by (simp add: load_l_identifying_result_def ls_def[symmetric])
    next
      case Lnew: False
      then have lt: "ls ! (k - 1) < L" using kle keq by simp
      have nat: "nat (int k) = k" by simp
      show ?thesis
        using sc sp assms(2) i1 lt Lnew False
        by (simp add: load_l_identifying_result_def ls_def[symmetric] py_insert_def Let_def)
    qed
  qed
qed

lemma flatten_update_same_keys:
  assumes "j < length cr" "keys V = keys (cr ! j)"
  shows "get_result_combined (s\<lparr>combined_results := cr[j := V]\<rparr>)
           = get_result_combined (s\<lparr>combined_results := cr\<rparr>)"
proof -
  have "map keys (cr[j := V]) = map keys cr"
    using assms by (simp add: map_update list_update_same_conv)
  then show ?thesis by (simp add: get_result_combined_concat)
qed

lemma second_load_present:
  assumes inv: "comb_inv s1" and ne: "combined_results s1 \<noteq> []"
    and L: "L \<in> set (lengths_processed s1)"
    and tb: "tables_after L (zip (lengths_processed s1) (combined_results s1)) d2
               = combined_results s1"
    and rd: "rd_after L (zip (lengths_processed s1) (combined_results s1)) d2 = d'"
    and sub: "set (keys d') \<subseteq> set (keys (combined_results s1 !
                (length (filter (\<lambda>l. l \<le> L) (lengths_processed s1)) - 1)))"
  shows "fst (load_l_identifying_result s1 d2 L) = None \<and>
         snd (snd (load_l_identifying_result s1 d2 L)) = d' \<and>
         get_result_combined (fst (snd (load_l_identifying_result s1 d2 L)))
           = get_result_combined s1"
proof -
  let ?k = "length (filter (\<lambda>l. l \<le> L) (lengths_processed s1))"
  let ?cr = "combined_results s1"
  have nall: "\<not> (\<forall>l \<in> set (lengths_processed s1). L < l)" using L by auto
  have ld: "load_l_identifying_result s1 d2 L =
              (None, s1\<lparr>combined_results := ?cr[?k - 1 := dict_update (?cr ! (?k - 1)) d']\<rparr>, d')"
    using load_content[OF inv ne, of d2 L] nall L by (simp add: tb rd)
  have srt: "sorted_wrt (<) (lengths_processed s1)"
    and len: "length ?cr = length (lengths_processed s1)"
    using inv by (simp_all add: comb_inv_def)
  have ex: "\<exists>l \<in> set (lengths_processed s1). l \<le> L" using L by auto
  have k0: "0 < ?k" using sorted_last_le(1)[OF srt ex] .
  have kl: "?k \<le> length (lengths_processed s1)" by (rule length_filter_le)
  have j: "?k - 1 < length ?cr" using k0 kl len by linarith
  have "keys (dict_update (?cr ! (?k - 1)) d') = keys (?cr ! (?k - 1))"
    using sub by (rule keys_dict_update_within)
  from flatten_update_same_keys[OF j this, of s1] ld show ?thesis by simp
qed

lemma tables_after_no_smaller:
  "\<forall>z \<in> set zs. \<not> fst z < ql \<Longrightarrow> tables_after ql zs rd = map snd zs"
  by (induction zs arbitrary: rd) auto

lemma load_again:
  assumes inv: "comb_inv s" and ld: "load_l_identifying_result s d L = (e1, s1, d1)"
    and d2: "d2 = d \<or> d2 = d1"
  shows "fst (load_l_identifying_result s1 d2 L) = e1 \<and>
         snd (snd (load_l_identifying_result s1 d2 L)) = d1 \<and>
         get_result_combined (fst (snd (load_l_identifying_result s1 d2 L)))
           = get_result_combined s1"
proof (cases "combined_results s = []")
  case True
  then have lsn: "lengths_processed s = []" using inv by (simp add: comb_inv_def)
  have r: "e1 = None" "d1 = d"
    "s1 = s\<lparr>combined_results := [d], lengths_processed := [L]\<rparr>"
    using ld True lsn by (auto simp: load_first)
  have inv1: "comb_inv s1" by (simp add: r comb_inv_def)
  have "fst (load_l_identifying_result s1 d2 L) = None \<and>
        snd (snd (load_l_identifying_result s1 d2 L)) = d \<and>
        get_result_combined (fst (snd (load_l_identifying_result s1 d2 L)))
          = get_result_combined s1"
    using d2 r by (intro second_load_present[OF inv1]) (simp_all add: r)
  then show ?thesis using r by simp
next
  case ne: False
  let ?ls = "lengths_processed s"
  let ?cr = "combined_results s"
  let ?zs = "zip ?ls ?cr"
  let ?cr' = "tables_after L ?zs d"
  let ?d' = "rd_after L ?zs d"
  let ?k = "length (filter (\<lambda>l. l \<le> L) ?ls)"
  let ?zs' = "zip ?ls ?cr'"
  have srt: "sorted_wrt (<) ?ls" and len: "length ?cr = length ?ls"
    using inv by (simp_all add: comb_inv_def)
  have lcr: "length ?cr' = length ?ls" using len by simp
  have crne: "?cr' \<noteq> []" using lcr len ne by (metis length_0_conv)
  have mf: "map fst ?zs = ?ls" using len by (simp add: map_fst_zip)
  have lc: "(e1, s1, d1) =
     (if \<forall>l \<in> set ?ls. L < l then (Some ValueError, s\<lparr>combined_results := ?cr'\<rparr>, ?d')
      else if L \<in> set ?ls then
        (None, s\<lparr>combined_results := ?cr'[?k - 1 := dict_update (?cr' ! (?k - 1)) ?d']\<rparr>, ?d')
      else
        (None, s\<lparr>lengths_processed := take ?k ?ls @ L # drop ?k ?ls,
                 combined_results := take ?k ?cr' @ ?d' # drop ?k ?cr'\<rparr>, ?d'))"
    unfolding ld[symmetric] by (rule load_content[OF inv ne])
  have sub2: "set (keys d2) \<subseteq> set (keys d)"
    using d2 lc keys_rd_after_subset[of L ?zs d] by (auto split: if_splits)
  have d1: "d1 = ?d'" using lc by (auto split: if_splits)
  have idem: "tables_after L ?zs' d2 = ?cr'"
    using tables_idem[OF sub2, of L ?zs] mf by simp
  have bigz: "big L ?zs' = big L ?zs"
    using big_tables_after[of L ?zs d] mf by simp
  have d2': "d2 = d \<or> d2 = rd_after L ?zs d" using d2 d1 by simp
  show ?thesis
  proof (cases "\<forall>l \<in> set ?ls. L < l")
    case True
    then have r: "e1 = Some ValueError" "s1 = s\<lparr>combined_results := ?cr'\<rparr>"
      using lc by simp_all
    have inv1: "comb_inv s1" using inv lcr by (simp add: r comb_inv_def)
    have ne1: "combined_results s1 \<noteq> []" using crne by (simp add: r)
    have "load_l_identifying_result s1 d2 L = (Some ValueError, s1, ?d')"
      using load_content[OF inv1 ne1, of d2 L] True idem rd_after_again[OF bigz d2']
      by (simp add: r)
    then show ?thesis using r d1 by simp
  next
    case nall: False
    then have ex: "\<exists>l \<in> set ?ls. l \<le> L" by (meson not_less)
    have k0: "0 < ?k" using sorted_last_le(1)[OF srt ex] .
    have kl: "?k \<le> length ?ls" by (rule length_filter_le)
    show ?thesis
    proof (cases "L \<in> set ?ls")
      case True
      let ?j = "?k - 1"
      let ?U = "dict_update (?cr' ! ?j) ?d'"
      have r: "e1 = None" "s1 = s\<lparr>combined_results := ?cr'[?j := ?U]\<rparr>"
        using lc nall True by simp_all
      have j: "?j < length ?ls" using k0 kl by linarith
      have lj: "?ls ! ?j = L" using sorted_last_le(4)[OF srt ex] True by simp
      have inv1: "comb_inv s1" using inv lcr by (simp add: r comb_inv_def)
      have ne1: "combined_results s1 \<noteq> []" using crne by (simp add: r)
      have L1: "L \<in> set (lengths_processed s1)" using True by (simp add: r)
      have zs1: "zip ?ls (?cr'[?j := ?U]) = ?zs'[?j := (L, ?U)]"
        using zip_update[of ?ls ?j "?ls ! ?j" ?cr' ?U] lj by simp
      have jz: "?j < length ?zs'" "fst (?zs' ! ?j) = L" using j lcr lj by simp_all
      note up = tables_after_upd[OF jz, of ?U d2]
      have "tables_after L (zip ?ls (?cr'[?j := ?U])) d2 = ?cr'[?j := ?U]"
        by (simp only: zs1 conjunct1[OF up] idem)
      then have tb: "tables_after L (zip (lengths_processed s1) (combined_results s1)) d2
                  = combined_results s1"
        by (simp add: r)
      have "big L (zip ?ls (?cr'[?j := ?U])) = big L ?zs"
        by (simp only: zs1 conjunct2[OF up] bigz)
      then have "big L (zip (lengths_processed s1) (combined_results s1)) = big L ?zs"
        by (simp add: r)
      from rd_after_again[OF this d2']
      have rd: "rd_after L (zip (lengths_processed s1) (combined_results s1)) d2 = ?d'" .
      have "combined_results s1 ! ?j = ?U" using j lcr by (simp add: r)
      then have sub: "set (keys ?d') \<subseteq> set (keys (combined_results s1 !
                (length (filter (\<lambda>l. l \<le> L) (lengths_processed s1)) - 1)))"
        using set_keys_dict_update[of ?d' "?cr' ! ?j"] by (simp add: r)
      from second_load_present[OF inv1 ne1 L1 tb rd sub] r d1 show ?thesis by simp
    next
      case Lnew: False
      let ?ls1 = "take ?k ?ls @ L # drop ?k ?ls"
      let ?cr1 = "take ?k ?cr' @ ?d' # drop ?k ?cr'"
      have r: "e1 = None" "s1 = s\<lparr>lengths_processed := ?ls1, combined_results := ?cr1\<rparr>"
        using lc nall Lnew by simp_all
      have tkdr: "take ?k ?ls = filter (\<lambda>l. l \<le> L) ?ls" "drop ?k ?ls = filter (\<lambda>l. L < l) ?ls"
        using sorted_filter_prefix[OF srt, of L] by simp_all
      have srt1: "sorted_wrt (<) ?ls1" using sorted_insert_new[OF srt Lnew] by (simp only: tkdr)
      have inv1: "comb_inv s1" using srt1 lcr kl by (simp add: r comb_inv_def)
      have ne1: "combined_results s1 \<noteq> []" by (simp add: r)
      have L1: "L \<in> set (lengths_processed s1)" by (simp add: r)
      have zs1: "zip ?ls1 ?cr1 = take ?k ?zs' @ (L, ?d') # drop ?k ?zs'"
        using lcr kl by (simp add: take_zip drop_zip)
      note ins = tables_after_ins[of L ?k ?zs' ?d' d2]
      have "tables_after L (zip ?ls1 ?cr1) d2 = ?cr1"
        by (simp only: zs1 conjunct1[OF ins] idem)
      then have tb: "tables_after L (zip (lengths_processed s1) (combined_results s1)) d2
                  = combined_results s1"
        by (simp add: r)
      have "big L (zip ?ls1 ?cr1) = big L ?zs"
        by (simp only: zs1 conjunct2[OF ins] bigz)
      then have "big L (zip (lengths_processed s1) (combined_results s1)) = big L ?zs"
        by (simp add: r)
      from rd_after_again[OF this d2']
      have rd: "rd_after L (zip (lengths_processed s1) (combined_results s1)) d2 = ?d'" .
      have k1: "length (filter (\<lambda>l. l \<le> L) ?ls1) = Suc ?k"
        by (simp only: tkdr) (simp add: filter_empty_conv)
      have "?cr1 ! ?k = ?d'" using lcr kl by (simp add: nth_append)
      then have sub: "set (keys ?d') \<subseteq> set (keys (combined_results s1 !
                (length (filter (\<lambda>l. l \<le> L) (lengths_processed s1)) - 1)))"
        using k1 by (simp add: r)
      from second_load_present[OF inv1 ne1 L1 tb rd sub] r d1 show ?thesis by simp
    qed
  qed
qed

lemma comb_inv_fresh: "comb_inv RangeCombiningAttack"
  by (simp add: comb_inv_def RangeCombiningAttack_def)

lemma load_preserves_inv:
  assumes "comb_inv s"
  shows "comb_inv (fst (snd (load_l_identifying_result s d L)))"
proof (cases "combined_results s = []")
  case True
  with assms show ?thesis by (simp add: load_first comb_inv_def)
next
  case False
  let ?ls = "lengths_processed s"
  have srt: "sorted_wrt (<) ?ls" and len: "length (combined_results s) = length ?ls"
    using assms by (simp_all add: comb_inv_def)
  show ?thesis
  proof (cases "L \<in> set ?ls \<or> (\<forall>l \<in> set ?ls. L < l)")
    case True
    then show ?thesis
      using load_content[OF assms False, of d L] srt len by (auto simp: comb_inv_def)
  next
    case Lnew: False
    let ?k = "length (filter (\<lambda>l. l \<le> L) ?ls)"
    let ?cr' = "tables_after L (zip ?ls (combined_results s)) d"
    let ?d' = "rd_after L (zip ?ls (combined_results s)) d"
    have tkdr: "take ?k ?ls = filter (\<lambda>l. l \<le> L) ?ls" "drop ?k ?ls = filter (\<lambda>l. L < l) ?ls"
      using sorted_filter_prefix[OF srt, of L] by simp_all
    have s1: "sorted_wrt (<) (take ?k ?ls @ L # drop ?k ?ls)"
      using sorted_insert_new[OF srt] Lnew by (simp only: tkdr) simp
    have eq: "load_l_identifying_result s d L =
        (None, s\<lparr>lengths_processed := take ?k ?ls @ L # drop ?k ?ls,
                 combined_results := take ?k ?cr' @ ?d' # drop ?k ?cr'\<rparr>, ?d')"
      using load_content[OF assms False, of d L] Lnew by simp
    have kl: "?k \<le> length ?ls" by (rule length_filter_le)
    have "length (take ?k ?cr' @ ?d' # drop ?k ?cr') = length (take ?k ?ls @ L # drop ?k ?ls)"
      using len kl by simp
    with s1 show ?thesis unfolding eq by (simp add: comb_inv_def)
  qed
qed

text \<open>
  Claim C9. From a combiner that satisfies \<open>comb_inv\<close> (as every combiner reached from a
  fresh one does, by \<open>comb_inv_fresh\<close> and \<open>load_preserves_inv\<close>), loading a pair and then
  loading it again leaves \<open>get_result\<close> as it was after the first load. The second call
  may pass the dict as the first call left it (\<open>d1\<close>) or an equal copy of the original
  (\<open>d\<close>); it raises what the first raised and does not change the dict it is passed
  again.
\<close>

theorem load_twice_same_result:
  assumes "comb_inv s" and "load_l_identifying_result s d L = (e1, s1, d1)"
  shows "get_result_combined (fst (snd (load_l_identifying_result s1 d1 L)))
           = get_result_combined s1 \<and>
         get_result_combined (fst (snd (load_l_identifying_result s1 d L)))
           = get_result_combined s1 \<and>
         snd (snd (load_l_identifying_result s1 d1 L)) = d1 \<and>
         fst (load_l_identifying_result s1 d1 L) = e1"
  using load_again[OF assms, of d1] load_again[OF assms, of d] by simp

theorem load_twice_same_result_witness:
  "comb_inv \<lparr>combined_results = [[([''a'', ''b''], 2), ([''b'', ''c''], 2)],
                                   [([''a'', ''b'', ''c'', ''d''], 2)]],
             lengths_processed = [2, 4]\<rparr> \<and>
   load_l_identifying_result
      \<lparr>combined_results = [[([''a'', ''b''], 2), ([''b'', ''c''], 2)],
                            [([''a'', ''b'', ''c'', ''d''], 2)]],
       lengths_processed = [2, 4]\<rparr>
      [([''a'', ''b'', ''c''], 3), ([''b'', ''c'', ''d''], 3)] 3
     = (None,
        \<lparr>combined_results = [[], [([''b'', ''c'', ''d''], 3)], [([''a'', ''b'', ''c'', ''d''], 2)]],
         lengths_processed = [2, 3, 4]\<rparr>,
        [([''b'', ''c'', ''d''], 3)]) \<and>
   get_result_combined (fst (snd (load_l_identifying_result
      \<lparr>combined_results = [[], [([''b'', ''c'', ''d''], 3)], [([''a'', ''b'', ''c'', ''d''], 2)]],
       lengths_processed = [2, 3, 4]\<rparr>
      [([''b'', ''c'', ''d''], 3)] 3)))
     = [[''b'', ''c'', ''d''], [''a'', ''b'', ''c'', ''d'']] \<and>
   get_result_combined (fst (snd (load_l_identifying_result
      \<lparr>combined_results = [[], [([''b'', ''c'', ''d''], 3)], [([''a'', ''b'', ''c'', ''d''], 2)]],
       lengths_processed = [2, 3, 4]\<rparr>
      [([''a'', ''b'', ''c''], 3), ([''b'', ''c'', ''d''], 3)] 3)))
     = [[''b'', ''c'', ''d''], [''a'', ''b'', ''c'', ''d'']]"
proof -
  let ?s = "\<lparr>combined_results = [[([''a'', ''b''], 2), ([''b'', ''c''], 2)],
                                   [([''a'', ''b'', ''c'', ''d''], 2)]],
             lengths_processed = [2, 4]\<rparr>"
  let ?d = "[([''a'', ''b'', ''c''], 3), ([''b'', ''c'', ''d''], 3)]"
  let ?s1 = "\<lparr>combined_results = [[], [([''b'', ''c'', ''d''], 3)],
                                    [([''a'', ''b'', ''c'', ''d''], 2)]],
              lengths_processed = [2, 3, 4]\<rparr>"
  let ?d1 = "[([''b'', ''c'', ''d''], 3::int)]"
  have h1: "comb_inv ?s" by (simp add: comb_inv_def)
  have h2: "load_l_identifying_result ?s ?d 3 = (None, ?s1, ?d1)"
    by (simp add: load_l_identifying_result_def py_index_def py_insert_def keys_def
        pop_slices_def py_slice_def py_stop_def dict_contains_def dict_pop_def)
  have g: "get_result_combined ?s1 = [[''b'', ''c'', ''d''], [''a'', ''b'', ''c'', ''d'']]"
    by (simp add: get_result_combined_def keys_def)
  from load_twice_same_result [OF h1 h2] g h1 h2 show ?thesis by simp
qed

section \<open>Properties of the matcher\<close>

lemma iter_okD: "iter_ok it \<Longrightarrow> finite S \<Longrightarrow> set (it S) = S \<and> distinct (it S)"
  by (simp add: iter_ok_def)

lemma iter_ok_singleton: "iter_ok it \<Longrightarrow> it {x} = [x]"
proof -
  assume "iter_ok it"
  then have s: "set (it {x}) = {x}" and d: "distinct (it {x})"
    using iter_okD[of it "{x}"] by simp_all
  from s d show ?thesis
    by (cases "it {x}") (auto simp: subset_singleton_iff split: if_splits)
qed

lemma iter_ok_empty: "iter_ok it \<Longrightarrow> it {} = []"
  using iter_okD[of it "{}"] by simp

lemma index_add_fold:
  "fold (\<lambda>elem index. index(elem := insert i (index elem))) xs idx
     = (\<lambda>e. if e \<in> set xs then insert i (idx e) else idx e)"
  by (induction xs arbitrary: idx) (auto simp: fun_eq_iff)

lemma build_index_fold:
  assumes "iter_ok ti"
  shows "fold (\<lambda>(i, b) index.
             fold (\<lambda>elem index. index(elem := insert i (index elem))) (ti (set b)) index)
          (enumerate n B) idx
       = (\<lambda>e. idx e \<union> {n + i | i. i < length B \<and> e \<in> set (B ! i)})"
proof (induction B arbitrary: n idx)
  case Nil
  then show ?case by simp
next
  case (Cons b B)
  have sb: "set (ti (set b)) = set b" using iter_okD[OF assms, of "set b"] by simp
  have "{n + i | i. i < length (b # B) \<and> e \<in> set ((b # B) ! i)}
          = (if e \<in> set b then {n} else {}) \<union> {Suc n + i | i. i < length B \<and> e \<in> set (B ! i)}"
    for e
  proof -
    have "{n + i | i. i < length (b # B) \<and> e \<in> set ((b # B) ! i)}
            = {n + i | i. i = 0 \<and> e \<in> set b} \<union>
              {n + i | i. \<exists>j. i = Suc j \<and> j < length B \<and> e \<in> set (B ! j)}"
      by (auto simp: less_Suc_eq_0_disj)
    also have "\<dots> = (if e \<in> set b then {n} else {}) \<union>
                      {Suc n + i | i. i < length B \<and> e \<in> set (B ! i)}"
      by auto
    finally show ?thesis .
  qed
  note split = this
  let ?G = "\<lambda>i elem index. index(elem := insert i (index elem))"
  let ?F = "\<lambda>(i, b) index. fold (?G i) (ti (set b)) index"
  have "fold ?F (enumerate n (b # B)) idx
          = fold ?F (enumerate (Suc n) B) (fold (?G n) (ti (set b)) idx)"
    by simp
  also have "\<dots> = (\<lambda>e. (fold (?G n) (ti (set b)) idx) e \<union>
                        {Suc n + i | i. i < length B \<and> e \<in> set (B ! i)})"
    by (rule Cons.IH)
  also have "\<dots> = (\<lambda>e. (if e \<in> set b then insert n (idx e) else idx e) \<union>
                        {Suc n + i | i. i < length B \<and> e \<in> set (B ! i)})"
    by (simp only: index_add_fold sb)
  also have "\<dots> = (\<lambda>e. idx e \<union> {n + i | i. i < length (b # B) \<and> e \<in> set ((b # B) ! i)})"
    by (rule ext) (simp only: split, auto)
  finally show ?case .
qed

lemma build_index_eq:
  "iter_ok ti \<Longrightarrow> build_index ti B e = {i. i < length B \<and> e \<in> set (B ! i)}"
  by (simp add: build_index_def build_index_fold)

lemma Counter_snoc: "Counter (xs @ [x]) = counter_incr (Counter xs) x"
  by (simp add: Counter_def)

lemma first_occ_snoc:
  "first_occ (xs @ [x]) = (if x \<in> set xs then first_occ xs else first_occ xs @ [x])"
  by (simp add: first_occ_def)

lemma set_first_occ [simp]: "set (first_occ xs) = set xs"
  by (simp add: first_occ_def)

lemma distinct_first_occ [simp]: "distinct (first_occ xs)"
  by (simp add: first_occ_def)

lemma first_occ_distinct: "distinct xs \<Longrightarrow> first_occ xs = xs"
  by (simp add: first_occ_def distinct_remdups_id)

lemma Counter_eq:
  "Counter xs = map (\<lambda>k. (k, int (count_list xs k))) (first_occ xs)"
proof (induction xs rule: rev_induct)
  case Nil
  then show ?case by (simp add: Counter_def first_occ_def)
next
  case (snoc x xs)
  show ?case
  proof (cases "x \<in> set xs")
    case True
    then have "dict_contains (Counter xs) x"
      by (simp add: snoc.IH dict_contains_def keys_def comp_def)
    then show ?thesis
      using True
      by (simp add: Counter_snoc counter_incr_def first_occ_snoc dict_add_def snoc.IH)
  next
    case False
    then have "\<not> dict_contains (Counter xs) x"
      by (simp add: snoc.IH dict_contains_def keys_def comp_def)
    then show ?thesis
      using False
      by (auto simp: Counter_snoc counter_incr_def first_occ_snoc dict_set_def snoc.IH)
  qed
qed

lemma counter_get_Counter: "counter_get (Counter xs) k = int (count_list xs k)"
proof -
  have "map_of (map (\<lambda>k. (k, int (count_list xs k))) ks) k
          = (if k \<in> set ks then Some (int (count_list xs k)) else None)" for ks
    by (induction ks) auto
  then show ?thesis
    by (simp add: counter_get_def Counter_eq)
qed

lemma elements_sub_Counter:
  "elements (counter_sub (Counter xs) (Counter ys))
     = concat (map (\<lambda>k. replicate (count_list xs k - count_list ys k) k) (first_occ xs))"
proof -
  have neg: "filter (\<lambda>(k, v). \<not> dict_contains (Counter xs) k \<and> v < 0) (Counter ys) = []"
    by (auto simp: Counter_eq filter_empty_conv)
  have "concat (map (\<lambda>(k, v). replicate (nat v) k)
          (filter (\<lambda>(k, v). 0 < v)
             (map (\<lambda>k. (k, int (count_list xs k) - int (count_list ys k))) ks)))
        = concat (map (\<lambda>k. replicate (count_list xs k - count_list ys k) k) ks)" for ks
    by (induction ks) (auto simp: nat_diff_distrib')
  then show ?thesis
    by (simp add: elements_def counter_sub_def neg counter_get_Counter)
       (simp add: Counter_eq comp_def)
qed

lemma count_list_replicate:
  "count_list (replicate n x) y = (if x = y then n else 0)"
  by (induction n) auto

lemma count_list_distinct: "distinct xs \<Longrightarrow> k \<in> set xs \<Longrightarrow> count_list xs k = 1"
  by (induction xs) auto

lemma count_list_pos: "k \<in> set ys \<Longrightarrow> 0 < count_list ys k"
  by (metis count_list_0_iff gr0I)

lemma count_concat_replicate:
  "distinct ks \<Longrightarrow>
     count_list (concat (map (\<lambda>k. replicate (n k) k) ks)) x = (if x \<in> set ks then n x else 0)"
  by (induction ks) (auto simp: count_list_replicate)

lemma mset_elements_sub:
  "mset (elements (counter_sub (Counter xs) (Counter ys))) = mset xs - mset ys"
proof (rule multiset_eqI)
  fix x
  show "count (mset (elements (counter_sub (Counter xs) (Counter ys)))) x = count (mset xs - mset ys) x"
    by (simp add: elements_sub_Counter count_concat_replicate count_mset count_list_0_iff)
qed

lemma elements_sub_distinct:
  assumes "distinct xs"
  shows "elements (counter_sub (Counter xs) (Counter ys)) = filter (\<lambda>x. x \<notin> set ys) xs"
proof -
  have "concat (map (\<lambda>k. replicate (count_list zs k - count_list ys k) k) ks)
          = filter (\<lambda>x. x \<notin> set ys) ks"
    if "\<forall>k \<in> set ks. count_list zs k = 1" for ks zs
    using that
  proof (induction ks)
    case Nil
    then show ?case by simp
  next
    case (Cons k ks)
    then show ?case
      using count_list_pos[of k ys] by (cases "k \<in> set ys") (auto simp: count_list_0_iff)
  qed
  moreover have "\<forall>k \<in> set xs. count_list xs k = 1"
    using assms by (simp add: count_list_distinct)
  ultimately show ?thesis
    using assms by (simp add: elements_sub_Counter first_occ_distinct)
qed

lemma fold_snoc_concat: "fold (\<lambda>a r. r @ f a) A acc = acc @ concat (map f A)"
  by (induction A arbitrary: acc) auto

lemma find_best_matches_split:
  "find_best_matches ti ii A B mo = concat (map (\<lambda>a. find_best_matches ti ii [a] B mo) A)"
proof -
  let ?f = "\<lambda>a. case find_best (tally ti ii (build_index ti B) a) of
                   None \<Rightarrow> []
                 | Some (best_idx, cnt) \<Rightarrow>
                     if mo \<le> cnt then [([best_idx], [positions ti a (B ! best_idx)])] else []"
  let ?g = "\<lambda>a results. case find_best (tally ti ii (build_index ti B) a) of
                   None \<Rightarrow> results
                 | Some (best_idx, cnt) \<Rightarrow>
                     if mo \<le> cnt
                     then results @ [([best_idx], [positions ti a (B ! best_idx)])]
                     else results"
  have g: "?g = (\<lambda>a r. r @ ?f a)"
    by (intro ext) (simp split: option.splits prod.splits)
  have all: "find_best_matches ti ii A B mo = concat (map ?f A)" for A
    unfolding find_best_matches_def Let_def g fold_snoc_concat by simp
  show ?thesis by (simp only: all) simp
qed

lemma tally_Counter:
  "tally ti ii index a = Counter (concat (map (\<lambda>elem. ii (index elem)) (ti (set a))))"
proof -
  have "fold (\<lambda>elem counter. fold (\<lambda>idx counter. counter_incr counter idx) (ii (index elem)) counter) xs c
          = fold (\<lambda>idx counter. counter_incr counter idx) (concat (map (\<lambda>elem. ii (index elem)) xs)) c"
    for xs c
    by (induction xs arbitrary: c) auto
  then show ?thesis by (simp add: tally_def Counter_def)
qed

lemma positions_bound: "d \<in> set (positions ti a b) \<Longrightarrow> d < length b"
  by (auto simp: positions_def in_set_enumerate_eq)

lemma nth_of_item_positions:
  "map ((!) b) (map fst (filter (\<lambda>(i, x). x = item) (enumerate 0 b))) = filter (\<lambda>x. x = item) b"
proof -
  have "map ((!) b) (map fst (filter (\<lambda>(i, x). x = item) (enumerate 0 b)))
          = map snd (filter (\<lambda>(i, x). x = item) (enumerate 0 b))"
    by (auto simp: in_set_enumerate_eq)
  also have "\<dots> = map snd (filter ((\<lambda>x. x = item) \<circ> snd) (enumerate 0 b))"
    by (simp add: comp_def split_def)
  also have "\<dots> = filter (\<lambda>x. x = item) (map snd (enumerate 0 b))"
    by (rule filter_map[symmetric])
  finally show ?thesis by simp
qed

lemma filter_eq_distinct:
  "distinct b \<Longrightarrow> item \<in> set b \<Longrightarrow> filter (\<lambda>x. x = item) b = [item]"
  by (induction b) (auto simp: filter_empty_conv)

lemma nth_positions:
  assumes "iter_ok ti" "distinct b"
  shows "map ((!) b) (positions ti a b) = ti (set a \<inter> set b)"
proof -
  have s: "set (ti (set a \<inter> set b)) = set a \<inter> set b"
    using iter_okD[OF assms(1), of "set a \<inter> set b"] by simp
  have "concat (map (\<lambda>item. filter (\<lambda>x. x = item) b) xs) = xs" if "set xs \<subseteq> set b" for xs
    using that by (induction xs) (simp_all add: filter_eq_distinct[OF assms(2)])
  note c = this[of "ti (set a \<inter> set b)"]
  have "map ((!) b) (positions ti a b)
          = concat (map (\<lambda>item. map ((!) b) (map fst (filter (\<lambda>(i, x). x = item) (enumerate 0 b))))
                        (ti (set a \<inter> set b)))"
    by (simp only: positions_def map_concat map_map o_def)
  also have "\<dots> = concat (map (\<lambda>item. filter (\<lambda>x. x = item) b) (ti (set a \<inter> set b)))"
    by (simp only: nth_of_item_positions)
  also have "\<dots> = ti (set a \<inter> set b)" using c s by simp
  finally show ?thesis .
qed

lemma resolve_Some:
  "\<forall>d \<in> set det. d < length creds \<and> d < length hashes \<Longrightarrow>
     resolve (Some creds) (Some hashes) det = Some (map ((!) creds) det, map ((!) hashes) det)"
  by (induction det) auto

lemma Counter_replicate:
  "Counter (replicate n x) = (if n = 0 then [] else [(x, int n)])"
proof (induction n)
  case 0
  then show ?case by (simp add: Counter_def)
next
  case (Suc n)
  have "Counter (replicate (Suc n) x) = counter_incr (Counter (replicate n x)) x"
    by (simp add: replicate_append_same Counter_snoc flip: replicate_append_same)
  then show ?case
    by (simp add: Suc.IH counter_incr_def dict_contains_def keys_def dict_add_def dict_set_def)
qed

lemma match_single_group:
  assumes "iter_ok ti" "iter_ok ii"
  shows "find_best_matches ti ii [a] [G] mo =
     (if set a \<inter> set G \<noteq> {} \<and> mo \<le> int (card (set a \<inter> set G))
      then [([0], [positions ti a G])] else [])"
proof -
  let ?xs = "ti (set a)"
  have sx: "set ?xs = set a" and dx: "distinct ?xs"
    using iter_okD[OF assms(1), of "set a"] by simp_all
  have idx: "ii (build_index ti [G] e) = (if e \<in> set G then [0] else [])" for e
  proof -
    have "build_index ti [G] e = (if e \<in> set G then {0} else {})"
      by (auto simp: build_index_eq[OF assms(1)])
    then show ?thesis by (simp add: iter_ok_singleton[OF assms(2)] iter_ok_empty[OF assms(2)])
  qed
  have "concat (map (\<lambda>e. if e \<in> set G then [0::nat] else []) xs)
          = replicate (length (filter (\<lambda>e. e \<in> set G) xs)) 0" for xs
    by (induction xs) auto
  moreover have "length (filter (\<lambda>e. e \<in> set G) ?xs) = card (set a \<inter> set G)"
  proof -
    have "distinct (filter (\<lambda>e. e \<in> set G) ?xs)" using dx by simp
    from distinct_card[OF this] sx show ?thesis
      by (simp add: Int_def conj_commute)
  qed
  ultimately have t: "tally ti ii (build_index ti [G]) a
                        = Counter (replicate (card (set a \<inter> set G)) 0)"
    by (simp add: tally_Counter idx)
  have c0: "(card (set a \<inter> set G) = 0) = (set a \<inter> set G = {})" by simp
  show ?thesis
    by (simp add: find_best_matches_def Let_def t Counter_replicate c0)
qed

lemma iter_ok_sorted_list_of_set: "iter_ok (sorted_list_of_set :: 'a::linorder set \<Rightarrow> 'a list)"
  by (simp add: iter_ok_def)

lemma run_matches_single:
  fixes a :: signature and P :: "string list"
  assumes "iter_ok ti" "distinct G" "length P = length G" "qs \<noteq> []"
  defines "ds \<equiv> positions ti a G"
  shows "run_matches \<lparr>credentials_data = [P], hash_credentials_data = [G]\<rparr> qs 0
           [([0], [ds])] ([], {})
         = Inr ([\<lparr>matches_list = map ((!) P) ds,
                   unmatches_list =
                     elements (counter_sub (Counter (qs ! 0)) (Counter (ti (set a \<inter> set G)))),
                   other_candidate =
                     elements (counter_sub (Counter P) (Counter (map ((!) P) ds)))\<rparr>],
                 {sort (map ((!) P) ds)})"
proof -
  have b: "\<forall>d \<in> set ds. d < length P \<and> d < length G"
    using positions_bound[of _ ti a G] assms(3) by (auto simp: ds_def)
  have r: "resolve (Some P) (Some G) ds = Some (map ((!) P) ds, ti (set a \<inter> set G))"
    using resolve_Some[OF b] nth_positions[OF assms(1,2), of a] by (simp add: ds_def)
  show ?thesis
    using assms(4) by (simp add: group_at_def r)
qed

lemma run_single_group:
  assumes "iter_ok ti" "iter_ok ii" "distinct G" "length P = length G"
    and q: "find_best_matches ti ii qs [G] mo = [([0], [positions ti a G])]" "qs \<noteq> []"
  shows "run ti ii \<lparr>credentials_data = [P], hash_credentials_data = [G]\<rparr> qs mo
         = Inr [\<lparr>matches_list = map ((!) P) (positions ti a G),
                  unmatches_list =
                    elements (counter_sub (Counter (qs ! 0)) (Counter (ti (set a \<inter> set G)))),
                  other_candidate =
                    elements (counter_sub (Counter P) (Counter (map ((!) P) (positions ti a G))))\<rparr>]"
  by (simp add: run_def q(1) run_matches_single[OF assms(1,3,4) q(2)] del: run_matches.simps)

lemma resolved_three:
  fixes pA pB pC :: string and prest :: "string list"
  assumes "iter_ok ti" and dG: "distinct (tA # tB # tC # grest)"
    and len: "length prest = length grest"
    and a: "mset a = mset [tA, tB, tC]"
  defines "G \<equiv> tA # tB # tC # grest" and "P \<equiv> pA # pB # pC # prest"
  shows "mset (ti (set a \<inter> set G)) = mset [tA, tB, tC]"
    and "mset (map ((!) P) (positions ti a G)) = mset [pA, pB, pC]"
proof -
  let ?hs = "ti (set a \<inter> set G)"
  let ?ds = "positions ti a G"
  have sa: "set a = {tA, tB, tC}" using mset_eq_setD[OF a] by simp
  then have int: "set a \<inter> set G = {tA, tB, tC}" by (auto simp: G_def)
  have hs: "set ?hs = {tA, tB, tC}" "distinct ?hs"
    using iter_okD[OF assms(1), of "set a \<inter> set G"] int by simp_all
  have d3: "distinct [tA, tB, tC]" using dG by simp
  show mh: "mset ?hs = mset [tA, tB, tC]"
    using hs d3 by (intro iffD1[OF set_eq_iff_mset_eq_distinct]) simp_all
  define g where "g t = (if t = tA then pA else if t = tB then pB else pC)" for t
  have dGG: "distinct G" using dG by (simp add: G_def)
  have nth: "map ((!) G) ?ds = ?hs" using nth_positions[OF assms(1) dGG] .
  have "P ! d = g (G ! d)" if d: "d \<in> set ?ds" for d
  proof -
    have dl: "d < length G" using positions_bound[OF d] .
    have "G ! d \<in> set ?hs" using nth d by (metis imageI list.set_map)
    then have in3: "G ! d = tA \<or> G ! d = tB \<or> G ! d = tC" using hs by simp
    have l: "0 < length G" "1 < length G" "2 < length G" by (simp_all add: G_def)
    have i0: "G ! d = G ! 0 \<longleftrightarrow> d = 0" using nth_eq_iff_index_eq[OF dGG dl l(1)] .
    have i1: "G ! d = G ! 1 \<longleftrightarrow> d = 1" using nth_eq_iff_index_eq[OF dGG dl l(2)] .
    have i2: "G ! d = G ! 2 \<longleftrightarrow> d = 2" using nth_eq_iff_index_eq[OF dGG dl l(3)] .
    have v: "G ! 0 = tA" "G ! 1 = tB" "G ! 2 = tC" by (simp_all add: G_def)
    from in3 i0 i1 i2 v consider "d = 0" "G ! d = tA" | "d = 1" "G ! d = tB" | "d = 2" "G ! d = tC"
      by metis
    then show ?thesis
      using d3 by cases (auto simp: g_def P_def)
  qed
  then have "map ((!) P) ?ds = map g (map ((!) G) ?ds)" by simp
  then have "mset (map ((!) P) ?ds) = image_mset g (mset ?hs)" by (simp add: nth)
  also have "\<dots> = mset [pA, pB, pC]" using d3 by (auto simp: mh g_def)
  finally show "mset (map ((!) P) ?ds) = mset [pA, pB, pC]" .
qed

lemma filter_not_in_prefix:
  "distinct (xs @ ys) \<Longrightarrow> set zs = set xs \<Longrightarrow> filter (\<lambda>x. x \<notin> set zs) (xs @ ys) = ys"
  by (auto simp: filter_empty_conv filter_id_conv)

lemma three_of_group:
  fixes pA pB pC :: string and prest :: "string list"
  assumes it: "iter_ok ti" "iter_ok ii"
    and dG: "distinct (tA # tB # tC # grest)"
    and len: "length prest = length grest"
    and a: "mset a = mset [tA, tB, tC]"
    and find: "find_best_matches ti ii qs [tA # tB # tC # grest] mo
                 = [([0], [positions ti a (tA # tB # tC # grest)])]"
    and qs: "qs \<noteq> []"
  shows "\<exists>ms os.
     run ti ii
       \<lparr>credentials_data = [pA # pB # pC # prest],
        hash_credentials_data = [tA # tB # tC # grest]\<rparr> qs mo
       = Inr [\<lparr>matches_list = ms,
                unmatches_list =
                  elements (counter_sub (Counter (qs ! 0)) (Counter (ti {tA, tB, tC}))),
                other_candidate = os\<rparr>] \<and>
     mset ms = mset [pA, pB, pC] \<and> mset os = mset prest \<and>
     (distinct (pA # pB # pC # prest) \<longrightarrow> os = prest)"
proof -
  let ?G = "tA # tB # tC # grest"
  let ?P = "pA # pB # pC # prest"
  let ?ms = "map ((!) ?P) (positions ti a ?G)"
  let ?os = "elements (counter_sub (Counter ?P) (Counter ?ms))"
  have lenPG: "length ?P = length ?G" using len by simp
  have sa: "set a = {tA, tB, tC}" using mset_eq_setD[OF a] by simp
  have int: "set a \<inter> set ?G = {tA, tB, tC}" using sa by auto
  note r = run_single_group[OF it dG lenPG find qs, unfolded int]
  have ms: "mset ?ms = mset [pA, pB, pC]"
    using resolved_three(2)[OF it(1) dG len a, of pA pB pC] .
  have "mset ?os = mset ?P - mset [pA, pB, pC]"
    by (simp only: mset_elements_sub ms)
  then have os: "mset ?os = mset prest" by simp
  have exact: "?os = prest" if dP: "distinct ?P"
  proof -
    have sm: "set ?ms = set [pA, pB, pC]" using mset_eq_setD[OF ms] .
    have dP': "distinct ([pA, pB, pC] @ prest)" using dP by simp
    have "?os = filter (\<lambda>x. x \<notin> set ?ms) ([pA, pB, pC] @ prest)"
      using elements_sub_distinct[OF dP, of ?ms] by simp
    also have "\<dots> = prest" using dP' sm by (rule filter_not_in_prefix)
    finally show ?thesis .
  qed
  from r ms os exact show ?thesis by blast
qed

lemma find_three:
  assumes it: "iter_ok ti" "iter_ok ii"
    and dG: "distinct (tA # tB # tC # grest)"
    and a: "mset a = mset [tA, tB, tC]"
  shows "find_best_matches ti ii [a] [tA # tB # tC # grest] 2
           = [([0], [positions ti a (tA # tB # tC # grest)])]"
proof -
  have sa: "set a = {tA, tB, tC}" using mset_eq_setD[OF a] by simp
  have int: "set a \<inter> set (tA # tB # tC # grest) = {tA, tB, tC}" using sa by auto
  have "card {tA, tB, tC} = 3" using dG by simp
  then show ?thesis
    unfolding match_single_group[OF it] int by simp
qed

lemma unmatched_empty:
  assumes "iter_ok ti" "distinct [tA, tB, tC]" "mset a = mset [tA, tB, tC]"
  shows "elements (counter_sub (Counter a) (Counter (ti {tA, tB, tC}))) = []"
proof -
  have "set (ti {tA, tB, tC}) = set [tA, tB, tC]" "distinct (ti {tA, tB, tC})"
    using iter_okD[OF assms(1), of "{tA, tB, tC}"] by simp_all
  then have "mset (ti {tA, tB, tC}) = mset [tA, tB, tC]"
    using assms(2) by (intro iffD1[OF set_eq_iff_mset_eq_distinct])
  then have "mset (elements (counter_sub (Counter a) (Counter (ti {tA, tB, tC})))) = {#}"
    by (simp only: mset_elements_sub assms(3)) simp
  then show ?thesis by simp
qed

text \<open>
  Claim C5. The index holds one leaked group of 11 distinct tokens \<open>tA\<close> to \<open>tK\<close> with
  plaintexts \<open>pA\<close> to \<open>pK\<close>; the single candidate is \<open>tA, tB, tC\<close> in any order and
  \<open>min_overlap = 2\<close>. Whatever order Python iterates its sets in, \<open>run\<close> returns one
  record: its matched plaintexts are \<open>pA, pB, pC\<close> (in the order the set is iterated), its
  unmatched list is empty, and its other candidates are \<open>pD\<close> to \<open>pK\<close>, in that order when
  the plaintexts are pairwise distinct.
\<close>

theorem matcher_single_group:
  fixes pA pB pC pD pE pF pG pH pI pJ pK :: string
  assumes "iter_ok ti" "iter_ok ii"
    and "distinct [tA, tB, tC, tD, tE, tF, tG, tH, tI, tJ, tK]"
    and "mset a = mset [tA, tB, tC]"
  shows "\<exists>ms os.
     run ti ii
       \<lparr>credentials_data = [[pA, pB, pC, pD, pE, pF, pG, pH, pI, pJ, pK]],
        hash_credentials_data = [[tA, tB, tC, tD, tE, tF, tG, tH, tI, tJ, tK]]\<rparr> [a] 2
       = Inr [\<lparr>matches_list = ms, unmatches_list = [], other_candidate = os\<rparr>] \<and>
     mset ms = mset [pA, pB, pC] \<and>
     mset os = mset [pD, pE, pF, pG, pH, pI, pJ, pK] \<and>
     (distinct [pA, pB, pC, pD, pE, pF, pG, pH, pI, pJ, pK] \<longrightarrow>
        os = [pD, pE, pF, pG, pH, pI, pJ, pK])"
proof -
  have len: "length [pD, pE, pF, pG, pH, pI, pJ, pK] = length [tD, tE, tF, tG, tH, tI, tJ, tK]"
    by simp
  have d3: "distinct [tA, tB, tC]" using assms(3) by simp
  have qne: "[a] \<noteq> []" by simp
  note f = find_three[OF assms(1,2,3,4)]
  note u = unmatched_empty[OF assms(1) d3 assms(4)]
  from three_of_group[OF assms(1,2,3) len assms(4) f qne, of pA pB pC]
  show ?thesis unfolding nth_Cons_0 u .
qed

theorem matcher_single_group_witness:
  "\<exists>ms. run sorted_list_of_set sorted_list_of_set
       \<lparr>credentials_data =
          [[''pA'', ''pB'', ''pC'', ''pD'', ''pE'', ''pF'', ''pG'', ''pH'', ''pI'', ''pJ'', ''pK'']],
        hash_credentials_data =
          [[''A'', ''B'', ''C'', ''D'', ''E'', ''F'', ''G'', ''H'', ''I'', ''J'', ''K'']]\<rparr>
       [[''C'', ''A'', ''B'']] 2
       = Inr [\<lparr>matches_list = ms, unmatches_list = [],
                other_candidate = [''pD'', ''pE'', ''pF'', ''pG'', ''pH'', ''pI'', ''pJ'', ''pK'']\<rparr>] \<and>
     mset ms = mset [''pA'', ''pB'', ''pC'']"
proof -
  have h1: "iter_ok (sorted_list_of_set :: token set \<Rightarrow> token list)"
    and h2: "iter_ok (sorted_list_of_set :: nat set \<Rightarrow> nat list)"
    by (rule iter_ok_sorted_list_of_set)+
  have h3: "distinct [''A'', ''B'', ''C'', ''D'', ''E'', ''F'', ''G'', ''H'', ''I'', ''J'', ''K'']"
    by simp
  have h4: "mset [''C'', ''A'', ''B''] = mset [''A'', ''B'', ''C'']" by simp
  have h5: "distinct [''pA'', ''pB'', ''pC'', ''pD'', ''pE'', ''pF'', ''pG'', ''pH'', ''pI'', ''pJ'', ''pK'']"
    by simp
  from matcher_single_group [OF h1 h2 h3 h4,
      of "''pA''" "''pB''" "''pC''" "''pD''" "''pE''" "''pF''" "''pG''" "''pH''" "''pI''" "''pJ''" "''pK''"]
    h5
  show ?thesis by blast
qed

text \<open>
  Claim C4, at a failing input. The first candidate \<open>(X, Y)\<close> shares no token with the
  group and is skipped by \<open>_find_best_matches\<close>, so the match of the second candidate
  \<open>(A, B, C)\<close> is at position 0 of the result list. \<open>run\<close> reads
  \<open>identified_queries[0]\<close> for it: the record's unmatched list is \<open>[X, Y]\<close>, the tokens
  of the other candidate, although every token of \<open>(A, B, C)\<close> is in the group.
\<close>

theorem unmatched_from_skipped_candidate:
  assumes "iter_ok ti" "iter_ok ii"
  shows "\<exists>ms. run ti ii
       \<lparr>credentials_data =
          [[''pA'', ''pB'', ''pC'', ''pD'', ''pE'', ''pF'', ''pG'', ''pH'', ''pI'', ''pJ'', ''pK'']],
        hash_credentials_data =
          [[''A'', ''B'', ''C'', ''D'', ''E'', ''F'', ''G'', ''H'', ''I'', ''J'', ''K'']]\<rparr>
       [[''X'', ''Y''], [''A'', ''B'', ''C'']] 2
       = Inr [\<lparr>matches_list = ms, unmatches_list = [''X'', ''Y''],
                other_candidate = [''pD'', ''pE'', ''pF'', ''pG'', ''pH'', ''pI'', ''pJ'', ''pK'']\<rparr>] \<and>
     mset ms = mset [''pA'', ''pB'', ''pC'']"
proof -
  let ?G = "[''A'', ''B'', ''C'', ''D'', ''E'', ''F'', ''G'', ''H'', ''I'', ''J'', ''K'']"
  let ?a = "[''A'', ''B'', ''C'']"
  let ?qs = "[[''X'', ''Y''], ?a]"
  have dG: "distinct ?G" by simp
  have dP: "distinct [''pA'', ''pB'', ''pC'', ''pD'', ''pE'', ''pF'', ''pG'', ''pH'', ''pI'', ''pJ'', ''pK'']"
    by simp
  have len: "length [''pD'', ''pE'', ''pF'', ''pG'', ''pH'', ''pI'', ''pJ'', ''pK'']
               = length [''D'', ''E'', ''F'', ''G'', ''H'', ''I'', ''J'', ''K'']" by simp
  have a: "mset ?a = mset ?a" by simp
  have none: "find_best_matches ti ii [[''X'', ''Y'']] [?G] 2 = []"
    unfolding match_single_group[OF assms] by simp
  have find: "find_best_matches ti ii ?qs [?G] 2 = [([0], [positions ti ?a ?G])]"
    using find_best_matches_split[of ti ii ?qs "[?G]" 2] none find_three[OF assms dG a]
    by simp
  have qne: "?qs \<noteq> []" by simp
  have "set (ti {''A'', ''B'', ''C''}) = {''A'', ''B'', ''C''}"
    using iter_okD[OF assms(1), of "{''A'', ''B'', ''C''}"] by simp
  then have un: "elements (counter_sub (Counter (?qs ! 0)) (Counter (ti {''A'', ''B'', ''C''})))
                   = [''X'', ''Y'']"
    by (simp add: elements_sub_distinct)
  from three_of_group[OF assms dG len a find qne, of "''pA''" "''pB''" "''pC''"] dP
  show ?thesis unfolding un by blast
qed

theorem unmatched_from_skipped_candidate_witness:
  "\<exists>ms. run sorted_list_of_set sorted_list_of_set
       \<lparr>credentials_data =
          [[''pA'', ''pB'', ''pC'', ''pD'', ''pE'', ''pF'', ''pG'', ''pH'', ''pI'', ''pJ'', ''pK'']],
        hash_credentials_data =
          [[''A'', ''B'', ''C'', ''D'', ''E'', ''F'', ''G'', ''H'', ''I'', ''J'', ''K'']]\<rparr>
       [[''X'', ''Y''], [''A'', ''B'', ''C'']] 2
       = Inr [\<lparr>matches_list = ms, unmatches_list = [''X'', ''Y''],
                other_candidate = [''pD'', ''pE'', ''pF'', ''pG'', ''pH'', ''pI'', ''pJ'', ''pK'']\<rparr>] \<and>
     mset ms = mset [''pA'', ''pB'', ''pC'']"
  using unmatched_from_skipped_candidate [OF iter_ok_sorted_list_of_set iter_ok_sorted_list_of_set]
  by blast

lemma all_keys_Nil [simp]: "all_keys m [] = []"
  by (simp add: all_keys_def)

lemma all_keys_Cons [simp]:
  "all_keys m ((indices, details) # rs) =
     (if length indices = 0 then [] else entry_keys m indices 0 details) @ all_keys m rs"
  by (simp add: all_keys_def)

lemma run_details_inv:
  assumes "run_details m q indices pos details (recs, test) = Inr (recs', test')"
    and "test = set (map rec_key recs)" "distinct (map rec_key recs)"
  shows "test' = set (map rec_key recs') \<and> distinct (map rec_key recs') \<and>
         test' = test \<union> set (entry_keys m indices pos details)"
  using assms
proof (induction details arbitrary: pos recs test)
  case Nil
  then show ?case by auto
next
  case (Cons det details)
  let ?r = "resolve (group_at (credentials_data m) indices pos)
                    (group_at (hash_credentials_data m) indices pos) det"
  from Cons.prems(1) obtain ms hs where r: "?r = Some (ms, hs)"
    by (cases ?r) auto
  show ?case
  proof (cases "sort ms \<in> test")
    case True
    then have "run_details m q indices (Suc pos) details (recs, test) = Inr (recs', test')"
      using Cons.prems(1) r by simp
    from Cons.IH[OF this Cons.prems(2,3)] True r show ?thesis by auto
  next
    case False
    from Cons.prems(1) r False obtain a creds where
      qa: "q = Some a" and g: "group_at (credentials_data m) indices pos = Some creds"
      by (cases q; cases "group_at (credentials_data m) indices pos") auto
    let ?rec = "\<lparr>matches_list = ms,
                 unmatches_list = elements (counter_sub (Counter a) (Counter hs)),
                 other_candidate = elements (counter_sub (Counter creds) (Counter ms))\<rparr>"
    have step: "run_details m q indices (Suc pos) details
                  (recs @ [?rec], insert (sort ms) test) = Inr (recs', test')"
      using Cons.prems(1) r False qa g by simp
    have rk: "rec_key ?rec = sort ms" by (simp add: rec_key_def)
    have i1: "insert (sort ms) test = set (map rec_key (recs @ [?rec]))"
      using Cons.prems(2) by (simp add: rk)
    have i2: "distinct (map rec_key (recs @ [?rec]))"
      using Cons.prems(2,3) False by (simp add: rk)
    from Cons.IH[OF step i1 i2] r show ?thesis by auto
  qed
qed

lemma run_matches_inv:
  assumes "run_matches m qs idpos results (recs, test) = Inr (recs', test')"
    and "test = set (map rec_key recs)" "distinct (map rec_key recs)"
  shows "test' = set (map rec_key recs') \<and> distinct (map rec_key recs') \<and>
         test' = test \<union> set (all_keys m results)"
  using assms
proof (induction results arbitrary: idpos recs test)
  case Nil
  then show ?case by auto
next
  case (Cons e results)
  obtain indices details where e: "e = (indices, details)" by (cases e)
  show ?case
  proof (cases "length indices = 0")
    case True
    then have "run_matches m qs (Suc idpos) results (recs, test) = Inr (recs', test')"
      using Cons.prems(1) e by simp
    from Cons.IH[OF this Cons.prems(2,3)] True e show ?thesis by auto
  next
    case False
    let ?q = "if idpos < length qs then Some (qs ! idpos) else None"
    from Cons.prems(1) e False obtain recs1 test1 where
      d: "run_details m ?q indices 0 details (recs, test) = Inr (recs1, test1)"
      and rest: "run_matches m qs (Suc idpos) results (recs1, test1) = Inr (recs', test')"
      by (cases "run_details m ?q indices 0 details (recs, test)") auto
    note a = run_details_inv[OF d Cons.prems(2,3)]
    from a have a1: "test1 = set (map rec_key recs1)" and a2: "distinct (map rec_key recs1)"
      and a3: "test1 = test \<union> set (entry_keys m indices 0 details)" by blast+
    from Cons.IH[OF rest a1 a2] a3 False e show ?thesis by auto
  qed
qed

lemma all_keys_append [simp]: "all_keys m (xs @ ys) = all_keys m xs @ all_keys m ys"
  by (simp add: all_keys_def)

lemma all_keys_concat: "all_keys m (concat xss) = concat (map (all_keys m) xss)"
  by (induction xss) simp_all

lemma count_one_of_distinct:
  "distinct (map f xs) \<Longrightarrow> K \<in> set (map f xs) \<Longrightarrow> length (filter (\<lambda>r. f r = K) xs) = 1"
proof (induction xs)
  case Nil
  then show ?case by simp
next
  case (Cons x xs)
  show ?case
  proof (cases "f x = K")
    case True
    have "f x \<notin> set (map f xs)" using Cons.prems(1) by simp
    then have "\<forall>r \<in> set xs. f r \<noteq> K" using True by (metis image_eqI list.set_map)
    then have "filter (\<lambda>r. f r = K) xs = []" by (simp add: filter_empty_conv)
    with True show ?thesis by simp
  next
    case False
    with Cons show ?thesis by auto
  qed
qed

lemma run_keys:
  assumes "run ti ii m qs mo = Inr recs"
  shows "distinct (map rec_key recs) \<and>
         set (map rec_key recs) = (\<Union>a \<in> set qs. set (accepted_keys ti ii m a mo))"
proof -
  let ?res = "find_best_matches ti ii qs (hash_credentials_data m) mo"
  from assms obtain test where
    rm: "run_matches m qs 0 ?res ([], {}) = Inr (recs, test)"
    by (auto simp: run_def split: sum.splits prod.splits)
  have "test = set (map rec_key recs) \<and> distinct (map rec_key recs) \<and>
        test = {} \<union> set (all_keys m ?res)"
    by (rule run_matches_inv[OF rm]) simp_all
  moreover have "set (all_keys m ?res) = (\<Union>a \<in> set qs. set (accepted_keys ti ii m a mo))"
    by (subst find_best_matches_split) (simp add: all_keys_concat accepted_keys_def comp_def)
  ultimately show ?thesis by auto
qed

lemma find_best_mem: "find_best c = Some kv \<Longrightarrow> kv \<in> set c"
proof -
  have "fold (\<lambda>(k, v) (bk, bv). if bv < v then (k, v) else (bk, bv)) rest acc
          \<in> insert acc (set rest)" for rest :: "(nat \<times> int) list" and acc
    by (induction rest arbitrary: acc) (auto split: prod.splits if_splits)
  then show "find_best c = Some kv \<Longrightarrow> kv \<in> set c"
    by (cases c) auto
qed

lemma set_keys_Counter: "fst ` set (Counter xs) = set xs"
  by (simp add: Counter_eq image_image)

lemma single_entry_shape:
  assumes "iter_ok ti" "iter_ok ii" "e \<in> set (find_best_matches ti ii [a] B mo)"
  shows "\<exists>b. e = ([b], [positions ti a (B ! b)]) \<and> b < length B"
proof -
  let ?t = "tally ti ii (build_index ti B) a"
  have "\<exists>b cnt. find_best ?t = Some (b, cnt) \<and> e = ([b], [positions ti a (B ! b)])"
  proof (cases "find_best ?t")
    case None
    with assms(3) show ?thesis by (simp add: find_best_matches_def Let_def)
  next
    case (Some kv)
    obtain b cnt where kv: "kv = (b, cnt)" by (cases kv)
    from assms(3) Some kv have "e = ([b], [positions ti a (B ! b)])"
      by (simp add: find_best_matches_def Let_def split: if_splits)
    with Some kv show ?thesis by simp
  qed
  then obtain b cnt where fb: "find_best ?t = Some (b, cnt)"
    and e: "e = ([b], [positions ti a (B ! b)])" by blast
  have "b \<in> fst ` set ?t" using find_best_mem[OF fb] by force
  then have "b \<in> set (concat (map (\<lambda>elem. ii (build_index ti B elem)) (ti (set a))))"
    by (simp only: tally_Counter set_keys_Counter)
  then obtain elem where "b \<in> set (ii (build_index ti B elem))" by auto
  moreover have "finite (build_index ti B elem)"
    by (simp add: build_index_eq[OF assms(1)])
  ultimately have "b \<in> build_index ti B elem" using iter_okD[OF assms(2)] by blast
  then have "b < length B" by (simp add: build_index_eq[OF assms(1)])
  with e show ?thesis by blast
qed

lemma length_single: "length (find_best_matches ti ii [a] B mo) \<le> 1"
  by (simp add: find_best_matches_def Let_def split: option.splits prod.splits)

lemma length_concat_le:
  "\<forall>x \<in> set xs. length (f x) \<le> 1 \<Longrightarrow> length (concat (map f xs)) \<le> length xs"
  by (induction xs) auto

lemma length_find_le: "length (find_best_matches ti ii A B mo) \<le> length A"
  by (subst find_best_matches_split) (intro length_concat_le ballI length_single)

lemma entries_shape:
  assumes "iter_ok ti" "iter_ok ii" "e \<in> set (find_best_matches ti ii A B mo)"
  shows "\<exists>b a. e = ([b], [positions ti a (B ! b)]) \<and> b < length B"
proof -
  from assms(3) obtain a where "e \<in> set (find_best_matches ti ii [a] B mo)"
    by (subst (asm) find_best_matches_split) auto
  from single_entry_shape[OF assms(1,2) this] show ?thesis by blast
qed

lemma run_details_total:
  assumes "matcher_aligned m" "b < length (hash_credentials_data m)"
  shows "\<exists>acc'. run_details m (Some q) [b] 0 [positions ti a (hash_credentials_data m ! b)] acc
                   = Inr acc'"
proof -
  let ?C = "credentials_data m" and ?H = "hash_credentials_data m"
  have la: "list_all2 (\<lambda>c h. length c = length h) ?C ?H"
    using assms(1) by (simp add: matcher_aligned_def)
  have lC: "b < length ?C" using list_all2_lengthD[OF la] assms(2) by simp
  have lb: "length (?C ! b) = length (?H ! b)" using list_all2_nthD[OF la lC] .
  have g: "group_at ?C [b] 0 = Some (?C ! b)" "group_at ?H [b] 0 = Some (?H ! b)"
    using lC assms(2) by (simp_all add: group_at_def)
  have "\<forall>d \<in> set (positions ti a (?H ! b)). d < length (?C ! b) \<and> d < length (?H ! b)"
    using positions_bound[of _ ti a "?H ! b"] lb by auto
  from resolve_Some[OF this] g obtain acc1 acc2 where "acc = (acc1, acc2)" 
    and r: "resolve (group_at ?C [b] 0) (group_at ?H [b] 0) (positions ti a (?H ! b))
              = Some (map ((!) (?C ! b)) (positions ti a (?H ! b)),
                      map ((!) (?H ! b)) (positions ti a (?H ! b)))"
    by (cases acc) simp
  then show ?thesis using g by simp
qed

lemma run_matches_total:
  assumes "matcher_aligned m"
    and "\<forall>e \<in> set results. \<exists>b a. e = ([b], [positions ti a (hash_credentials_data m ! b)])
                                   \<and> b < length (hash_credentials_data m)"
    and "idpos + length results \<le> length qs"
  shows "\<exists>acc'. run_matches m qs idpos results acc = Inr acc'"
  using assms(2,3)
proof (induction results arbitrary: idpos acc)
  case Nil
  then show ?case by simp
next
  case (Cons e results)
  from Cons.prems(1) obtain b a where e: "e = ([b], [positions ti a (hash_credentials_data m ! b)])"
    and b: "b < length (hash_credentials_data m)" by auto
  have id: "idpos < length qs" using Cons.prems(2) by simp
  from run_details_total[OF assms(1) b, of "qs ! idpos" ti a acc] obtain acc1 where
    d: "run_details m (Some (qs ! idpos)) [b] 0 [positions ti a (hash_credentials_data m ! b)] acc
          = Inr acc1" by blast
  have "\<exists>acc'. run_matches m qs (Suc idpos) results acc1 = Inr acc'"
    using Cons.prems by (intro Cons.IH) auto
  then show ?case using e id d by simp
qed

lemma run_total:
  assumes "iter_ok ti" "iter_ok ii" "matcher_aligned m"
  shows "\<exists>recs. run ti ii m qs mo = Inr recs"
proof -
  let ?res = "find_best_matches ti ii qs (hash_credentials_data m) mo"
  have sh: "\<forall>e \<in> set ?res. \<exists>b a. e = ([b], [positions ti a (hash_credentials_data m ! b)])
                                   \<and> b < length (hash_credentials_data m)"
    using entries_shape[OF assms(1,2)] by blast
  have "0 + length ?res \<le> length qs" using length_find_le by simp
  from run_matches_total[OF assms(3) sh this, of "([], {})"] show ?thesis
    by (auto simp: run_def)
qed

text \<open>
  Claim C8. When \<open>run\<close> returns, the sorted matched-plaintext lists of its records are
  pairwise different; every candidate with an accepted match has exactly one record with
  its sorted matched-plaintext list in the output, so two candidates that resolve to the
  same list share one record; and every record comes from some candidate. \<open>run\<close> does
  return when the matcher's groups are aligned.
\<close>

theorem run_dedup:
  "(\<forall>recs. run ti ii m qs mo = Inr recs \<longrightarrow>
      distinct (map rec_key recs) \<and>
      (\<forall>a \<in> set qs. \<forall>K \<in> set (accepted_keys ti ii m a mo).
         length (filter (\<lambda>r. rec_key r = K) recs) = 1) \<and>
      (\<forall>r \<in> set recs. \<exists>a \<in> set qs. rec_key r \<in> set (accepted_keys ti ii m a mo))) \<and>
   (iter_ok ti \<and> iter_ok ii \<and> matcher_aligned m \<longrightarrow> (\<exists>recs. run ti ii m qs mo = Inr recs))"
proof (intro conjI allI impI)
  fix recs
  assume r: "run ti ii m qs mo = Inr recs"
  note k = run_keys[OF r]
  from k show "distinct (map rec_key recs)" by blast
  show "\<forall>a \<in> set qs. \<forall>K \<in> set (accepted_keys ti ii m a mo).
          length (filter (\<lambda>r. rec_key r = K) recs) = 1"
  proof (intro ballI)
    fix a K
    assume "a \<in> set qs" "K \<in> set (accepted_keys ti ii m a mo)"
    then have "K \<in> set (map rec_key recs)" using k by blast
    with k show "length (filter (\<lambda>r. rec_key r = K) recs) = 1"
      by (intro count_one_of_distinct) blast+
  qed
  show "\<forall>r \<in> set recs. \<exists>a \<in> set qs. rec_key r \<in> set (accepted_keys ti ii m a mo)"
  proof
    fix r
    assume "r \<in> set recs"
    then have "rec_key r \<in> set (map rec_key recs)" by simp
    with k show "\<exists>a \<in> set qs. rec_key r \<in> set (accepted_keys ti ii m a mo)" by blast
  qed
next
  assume "iter_ok ti \<and> iter_ok ii \<and> matcher_aligned m"
  then show "\<exists>recs. run ti ii m qs mo = Inr recs" using run_total by blast
qed

theorem run_dedup_witness:
  "matcher_aligned
     \<lparr>credentials_data =
        [[''pA'', ''pB'', ''pC'', ''pD'', ''pE'', ''pF'', ''pG'', ''pH'', ''pI'', ''pJ'', ''pK'']],
      hash_credentials_data =
        [[''A'', ''B'', ''C'', ''D'', ''E'', ''F'', ''G'', ''H'', ''I'', ''J'', ''K'']]\<rparr> \<and>
   run sorted_list_of_set sorted_list_of_set
     \<lparr>credentials_data =
        [[''pA'', ''pB'', ''pC'', ''pD'', ''pE'', ''pF'', ''pG'', ''pH'', ''pI'', ''pJ'', ''pK'']],
      hash_credentials_data =
        [[''A'', ''B'', ''C'', ''D'', ''E'', ''F'', ''G'', ''H'', ''I'', ''J'', ''K'']]\<rparr>
     [[''A'', ''B'', ''C'', ''Z''], [''A'', ''B'', ''C'', ''W'']] 2
   = Inr [\<lparr>matches_list = [''pA'', ''pB'', ''pC''], unmatches_list = [''Z''],
            other_candidate = [''pD'', ''pE'', ''pF'', ''pG'', ''pH'', ''pI'', ''pJ'', ''pK'']\<rparr>] \<and>
   accepted_keys sorted_list_of_set sorted_list_of_set
     \<lparr>credentials_data =
        [[''pA'', ''pB'', ''pC'', ''pD'', ''pE'', ''pF'', ''pG'', ''pH'', ''pI'', ''pJ'', ''pK'']],
      hash_credentials_data =
        [[''A'', ''B'', ''C'', ''D'', ''E'', ''F'', ''G'', ''H'', ''I'', ''J'', ''K'']]\<rparr>
     [''A'', ''B'', ''C'', ''Z''] 2 = [[''pA'', ''pB'', ''pC'']] \<and>
   accepted_keys sorted_list_of_set sorted_list_of_set
     \<lparr>credentials_data =
        [[''pA'', ''pB'', ''pC'', ''pD'', ''pE'', ''pF'', ''pG'', ''pH'', ''pI'', ''pJ'', ''pK'']],
      hash_credentials_data =
        [[''A'', ''B'', ''C'', ''D'', ''E'', ''F'', ''G'', ''H'', ''I'', ''J'', ''K'']]\<rparr>
     [''A'', ''B'', ''C'', ''W''] 2 = [[''pA'', ''pB'', ''pC'']] \<and>
   length (filter (\<lambda>r. rec_key r = [''pA'', ''pB'', ''pC''])
     [\<lparr>matches_list = [''pA'', ''pB'', ''pC''], unmatches_list = [''Z''],
       other_candidate = [''pD'', ''pE'', ''pF'', ''pG'', ''pH'', ''pI'', ''pJ'', ''pK'']\<rparr>]) = 1"
proof -
  let ?m = "\<lparr>credentials_data =
        [[''pA'', ''pB'', ''pC'', ''pD'', ''pE'', ''pF'', ''pG'', ''pH'', ''pI'', ''pJ'', ''pK'']],
      hash_credentials_data =
        [[''A'', ''B'', ''C'', ''D'', ''E'', ''F'', ''G'', ''H'', ''I'', ''J'', ''K'']]\<rparr>"
  let ?qs = "[[''A'', ''B'', ''C'', ''Z''], [''A'', ''B'', ''C'', ''W'']]"
  let ?recs = "[\<lparr>matches_list = [''pA'', ''pB'', ''pC''], unmatches_list = [''Z''],
       other_candidate = [''pD'', ''pE'', ''pF'', ''pG'', ''pH'', ''pI'', ''pJ'', ''pK'']\<rparr>]"
  have al: "matcher_aligned ?m" by (simp add: matcher_aligned_def)
  have h: "run sorted_list_of_set sorted_list_of_set ?m ?qs 2 = Inr ?recs" by code_simp
  have k1: "accepted_keys sorted_list_of_set sorted_list_of_set ?m [''A'', ''B'', ''C'', ''Z''] 2
              = [[''pA'', ''pB'', ''pC'']]" by code_simp
  have k2: "accepted_keys sorted_list_of_set sorted_list_of_set ?m [''A'', ''B'', ''C'', ''W''] 2
              = [[''pA'', ''pB'', ''pC'']]" by code_simp
  from run_dedup [of sorted_list_of_set sorted_list_of_set ?m ?qs 2] h
  have "\<forall>a \<in> set ?qs. \<forall>K \<in> set (accepted_keys sorted_list_of_set sorted_list_of_set ?m a 2).
          length (filter (\<lambda>r. rec_key r = K) ?recs) = 1"
    by blast
  then have "\<forall>K \<in> set (accepted_keys sorted_list_of_set sorted_list_of_set ?m
                          [''A'', ''B'', ''C'', ''W''] 2).
          length (filter (\<lambda>r. rec_key r = K) ?recs) = 1"
    by simp
  then have "length (filter (\<lambda>r. rec_key r = [''pA'', ''pB'', ''pC'']) ?recs) = 1"
    unfolding k2 by simp
  with al h k1 k2 show ?thesis by blast
qed

end
